theory Spec2Isabelle
  imports Complex_Main "HOL-Library.AList" "HOL-Library.Sublist"
begin

section \<open>Values, steps and modules\<close>

text \<open>
  Results of module executors are untyped JavaScript values (\<^verbatim>\<open>any\<close>).  The embedding
  covers the JSON-like part of that domain: \<^verbatim>\<open>undefined\<close>, \<^verbatim>\<open>null\<close>, booleans, finite
  numbers, \<^verbatim>\<open>NaN\<close>, strings, arrays and plain objects.  An object is the list of its own
  enumerable properties in enumeration order (keys pairwise different).
\<close>

datatype jsval =
    JUndefined
  | JNull
  | JBool bool
  | JNum real
  | JNaN
  | JStr string
  | JArr "jsval list"
  | JObj "(string \<times> jsval) list"

text \<open>JavaScript truthiness, as used by \<^verbatim>\<open>if (x)\<close>, \<^verbatim>\<open>!x\<close> and \<^verbatim>\<open>x || y\<close>.\<close>

fun truthy :: "jsval \<Rightarrow> bool" where
  "truthy JUndefined = False"
| "truthy JNull = False"
| "truthy (JBool b) = b"
| "truthy (JNum n) = (n \<noteq> 0)"
| "truthy JNaN = False"
| "truthy (JStr s) = (s \<noteq> [])"
| "truthy (JArr xs) = True"
| "truthy (JObj kvs) = True"

text \<open>Decimal rendering of a non-negative integer, as template literals produce it.\<close>

definition digit_char :: "nat \<Rightarrow> char" where
  "digit_char d = ''0123456789'' ! d"

function string_of_nat :: "nat \<Rightarrow> string" where
  "string_of_nat n =
     (if n < 10 then [digit_char n] else string_of_nat (n div 10) @ [digit_char (n mod 10)])"
  by pat_completeness auto
termination
  by (relation "measure (\<lambda>n. n)") auto

declare string_of_nat.simps [simp del]

text \<open>
  \<^verbatim>\<open>Object.keys(v).forEach(key => ... v[key] ...)\<close>: the own enumerable properties of a
  value.  Arrays and strings expose their indices, other primitives expose nothing.
\<close>

fun own_entries :: "jsval \<Rightarrow> (string \<times> jsval) list" where
  "own_entries (JObj kvs) = kvs"
| "own_entries (JArr xs) = zip (map string_of_nat [0..<length xs]) xs"
| "own_entries (JStr s) = zip (map string_of_nat [0..<length s]) (map (\<lambda>c. JStr [c]) s)"
| "own_entries v = []"

text \<open>Reading \<^verbatim>\<open>obj[key]\<close> from a plain object: a missing key reads as \<^verbatim>\<open>undefined\<close>.\<close>

definition get_prop :: "(string \<times> jsval) list \<Rightarrow> string \<Rightarrow> jsval" where
  "get_prop kvs key = (case map_of kvs key of None \<Rightarrow> JUndefined | Some v \<Rightarrow> v)"

text \<open>
  \<^verbatim>\<open>Object.assign(target, source)\<close> on plain objects: every property of the source is
  written to the target, replacing a property of the same name in place and appending a new one.
\<close>

definition object_assign :: "(string \<times> jsval) list \<Rightarrow> (string \<times> jsval) list \<Rightarrow> (string \<times> jsval) list" where
  "object_assign target source = fold (\<lambda>(k, v) t. AList.update k v t) source target"

text \<open>The \<^verbatim>\<open>WorkflowStep\<close> of the repository; \<^verbatim>\<open>llm\<close> and \<^verbatim>\<open>dependsOn\<close> are optional.\<close>

record WorkflowStep =
  instanceId :: string
  moduleId :: string
  config :: "(string \<times> jsval) list"
  llm :: "string option"
  dependsOn :: "string list option"

text \<open>\<^verbatim>\<open>step.dependsOn || []\<close> (an array, even an empty one, is truthy).\<close>

definition deps_of :: "WorkflowStep \<Rightarrow> string list" where
  "deps_of s = (case dependsOn s of None \<Rightarrow> [] | Some ds \<Rightarrow> ds)"

text \<open>
  \<^verbatim>\<open>DataType\<close>, \<^verbatim>\<open>ModuleIO\<close> and \<^verbatim>\<open>Module\<close> with the fields the engine reads.  The field
  \<^verbatim>\<open>type\<close> is \<open>dtype\<close> here and \<^verbatim>\<open>id\<close> is \<open>module_id\<close>; \<^verbatim>\<open>required\<close> is optional.
\<close>

record DataType =
  dtype :: string
  required :: "bool option"

definition is_required :: "DataType \<Rightarrow> bool" where
  "is_required d = (required d = Some True)"

record ModuleIO =
  inputs :: "DataType list"
  outputs :: "DataType list"

datatype Category = data_collection | processing | communication | analysis | decision | integration

record Module =
  module_id :: string
  name :: string
  io :: ModuleIO
  category :: Category

section \<open>The parallel executor\<close>

datatype Status = Pending | Running | Completed | Failed

record ExecutionNode =
  step :: WorkflowStep
  status :: Status
  result :: jsval
  error :: "string option"

text \<open>
  The \<^verbatim>\<open>Map\<close> of nodes is an association list in insertion order (\<^verbatim>\<open>Map.set\<close> is
  \<^const>\<open>AList.update\<close>: an existing key keeps its place).  The two \<^verbatim>\<open>Set\<close>s are only
  asked for membership and size.
\<close>

record ExecutionGraph =
  nodes :: "(string \<times> ExecutionNode) list"
  completed :: "string set"
  running :: "string set"

text \<open>
  What the engine calls but does not own: the module catalogue behind
  \<^verbatim>\<open>ModuleStorage.getById\<close>, the table \<^verbatim>\<open>moduleExecutors\<close> (an executor returns a value or
  throws an \<^verbatim>\<open>Error\<close> with a message, \<open>Inl\<close>), the clock read by \<^verbatim>\<open>simulateExecution\<close>,
  and what \<^verbatim>\<open>Object.assign\<close> does to a target that is not a plain object (the target's new
  value, or the message of the error it throws).  Executors are taken to return and not to
  mutate their arguments.
\<close>

record Env =
  getById :: "string \<Rightarrow> Module option"
  moduleExecutors :: "string \<Rightarrow> ((string \<times> jsval) list \<Rightarrow> jsval \<Rightarrow> string option \<Rightarrow> string + jsval) option"
  isoNow :: "string \<Rightarrow> string"
  assignExotic :: "jsval \<Rightarrow> (string \<times> jsval) list \<Rightarrow> string + jsval"

definition hasRealImplementation :: "Env \<Rightarrow> string \<Rightarrow> bool" where
  "hasRealImplementation env mid = (moduleExecutors env mid \<noteq> None)"

definition executeModule :: "Env \<Rightarrow> string \<Rightarrow> (string \<times> jsval) list \<Rightarrow> jsval \<Rightarrow> string option \<Rightarrow> string + jsval" where
  "executeModule env mid cfg previousResults l =
     (case moduleExecutors env mid of
        None \<Rightarrow> Inl (''No executor found for module: '' @ mid)
      | Some executor \<Rightarrow> executor cfg previousResults l)"

definition simulateExecution :: "Module \<Rightarrow> (string \<times> jsval) list \<Rightarrow> string \<Rightarrow> jsval" where
  "simulateExecution m cfg now =
     JObj [(''moduleId'', JStr (module_id m)),
           (''moduleName'', JStr (name m)),
           (''status'', JStr ''completed''),
           (''config'', JObj cfg),
           (''output'', JStr (''Simulated output from '' @ name m)),
           (''executedAt'', JStr now)]"

text \<open>The constructor: one pending node per step, a later step of the same id replacing the node.\<close>

definition new_node :: "WorkflowStep \<Rightarrow> ExecutionNode" where
  "new_node s = \<lparr>step = s, status = Pending, result = JUndefined, error = None\<rparr>"

definition init_graph :: "WorkflowStep list \<Rightarrow> ExecutionGraph" where
  "init_graph steps =
     \<lparr>nodes = fold (\<lambda>s ns. AList.update (instanceId s) (new_node s) ns) steps [],
      completed = {}, running = {}\<rparr>"

definition getReadySteps :: "ExecutionGraph \<Rightarrow> ExecutionNode list" where
  "getReadySteps g =
     map snd (filter (\<lambda>(k, node). status node = Pending \<and>
                         list_all (\<lambda>depId. depId \<in> completed g) (deps_of (step node)))
                     (nodes g))"

subsection \<open>gatherInputs\<close>

definition push_not_a_function :: string where
  "push_not_a_function = ''mergedInput[key].push is not a function''"

text \<open>
  One pass of the inner \<^verbatim>\<open>forEach\<close> over a key of a dependency's result: the new
  \<^verbatim>\<open>mergedInput\<close>, or the message of the error thrown.  Pushing onto a value that is truthy and
  not an array throws a \<^verbatim>\<open>TypeError\<close>.
\<close>

fun merge_key :: "Env \<Rightarrow> (string \<times> jsval) list \<Rightarrow> string \<times> jsval \<Rightarrow> string + (string \<times> jsval) list" where
  "merge_key env merged (key, JArr xs) =
     (let cur = (if truthy (get_prop merged key) then get_prop merged key else JArr [])
      in case cur of
           JArr ys \<Rightarrow> Inr (AList.update key (JArr (ys @ xs)) merged)
         | _ \<Rightarrow> Inl push_not_a_function)"
| "merge_key env merged (key, JObj kvs) =
     (let cur = (if truthy (get_prop merged key) then get_prop merged key else JObj [])
      in case cur of
           JObj t \<Rightarrow> Inr (AList.update key (JObj (object_assign t kvs)) merged)
         | _ \<Rightarrow> (case assignExotic env cur kvs of
                   Inl msg \<Rightarrow> Inl msg
                 | Inr cur' \<Rightarrow> Inr (AList.update key cur' merged)))"
| "merge_key env merged (key, v) =
     (if get_prop merged key = JUndefined then Inr (AList.update key v merged) else Inr merged)"

fun merge_keys :: "Env \<Rightarrow> (string \<times> jsval) list \<Rightarrow> (string \<times> jsval) list \<Rightarrow> string + (string \<times> jsval) list" where
  "merge_keys env merged [] = Inr merged"
| "merge_keys env merged (kv # kvs) =
     (case merge_key env merged kv of
        Inl msg \<Rightarrow> Inl msg
      | Inr merged' \<Rightarrow> merge_keys env merged' kvs)"

text \<open>\<^verbatim>\<open>this.graph.nodes.get(depId)?.result\<close>.\<close>

definition dep_result :: "ExecutionGraph \<Rightarrow> string \<Rightarrow> jsval" where
  "dep_result g depId = (case map_of (nodes g) depId of None \<Rightarrow> JUndefined | Some n \<Rightarrow> result n)"

text \<open>The outer \<^verbatim>\<open>forEach\<close> over the dependencies, on the pair of \<^verbatim>\<open>mergedInput\<close> and \<^verbatim>\<open>allResults\<close>.\<close>

fun merge_deps :: "Env \<Rightarrow> ExecutionGraph \<Rightarrow> (string \<times> jsval) list \<times> jsval list \<Rightarrow> string list
    \<Rightarrow> string + ((string \<times> jsval) list \<times> jsval list)" where
  "merge_deps env g (merged, allResults) [] = Inr (merged, allResults)"
| "merge_deps env g (merged, allResults) (depId # rest) =
     (if truthy (dep_result g depId) then
        (case merge_keys env merged (own_entries (dep_result g depId)) of
           Inl msg \<Rightarrow> Inl msg
         | Inr merged' \<Rightarrow> merge_deps env g (merged', allResults @ [dep_result g depId]) rest)
      else merge_deps env g (merged, allResults) rest)"

definition gatherInputs :: "Env \<Rightarrow> ExecutionGraph \<Rightarrow> WorkflowStep \<Rightarrow> string + jsval" where
  "gatherInputs env g s =
     (let dependencies = deps_of s in
      if length dependencies = 0 then Inr JNull
      else if length dependencies = 1 then
        Inr (if truthy (dep_result g (hd dependencies)) then dep_result g (hd dependencies) else JNull)
      else
        (case merge_deps env g ([], []) dependencies of
           Inl msg \<Rightarrow> Inl msg
         | Inr (merged, allResults) \<Rightarrow>
             Inr (JObj (AList.update ''_allResults'' (JArr allResults)
                         (AList.update ''_sources'' (JArr (map JStr dependencies)) merged)))))"

subsection \<open>executeStep and execute\<close>

text \<open>Mutation of the node object stored under a key.\<close>

definition modify_node :: "string \<Rightarrow> (ExecutionNode \<Rightarrow> ExecutionNode) \<Rightarrow> ExecutionGraph \<Rightarrow> ExecutionGraph" where
  "modify_node key f g = g\<lparr>nodes := map (\<lambda>(k, n). if k = key then (k, f n) else (k, n)) (nodes g)\<rparr>"

text \<open>
  The part of the \<^verbatim>\<open>try\<close> block after the node was marked running: the module lookup, the
  inputs, and the executor (or the simulation).  \<open>Inl\<close> is the message of the error thrown.
\<close>

definition run_step :: "Env \<Rightarrow> ExecutionGraph \<Rightarrow> WorkflowStep \<Rightarrow> string + jsval" where
  "run_step env g s =
     (case getById env (moduleId s) of
        None \<Rightarrow> Inl (''Module not found: '' @ moduleId s)
      | Some m \<Rightarrow>
          (case gatherInputs env g s of
             Inl msg \<Rightarrow> Inl msg
           | Inr inputData \<Rightarrow>
               if hasRealImplementation env (module_id m)
               then executeModule env (module_id m) (config s) inputData (llm s)
               else Inr (simulateExecution m (config s) (isoNow env (instanceId s)))))"

definition error_record :: "string \<Rightarrow> jsval" where
  "error_record msg = JObj [(''status'', JStr ''error''), (''error'', JStr msg)]"

text \<open>The synchronous head of \<^verbatim>\<open>executeStep\<close>: the node is marked and enters \<^verbatim>\<open>running\<close>.\<close>

definition mark_running :: "ExecutionNode \<Rightarrow> ExecutionGraph \<Rightarrow> ExecutionGraph" where
  "mark_running node g =
     (modify_node (instanceId (step node)) (\<lambda>n. n\<lparr>status := Running\<rparr>) g)
       \<lparr>running := insert (instanceId (step node)) (running g)\<rparr>"

definition executeStep :: "Env \<Rightarrow> ExecutionNode \<Rightarrow> ExecutionGraph \<Rightarrow> ExecutionGraph" where
  "executeStep env node g =
     (let s = step node;
          g1 = mark_running node g
      in case run_step env g1 s of
           Inr r \<Rightarrow>
             (modify_node (instanceId s) (\<lambda>n. n\<lparr>result := r, status := Completed\<rparr>) g1)
               \<lparr>running := running g1 - {instanceId s},
                completed := insert (instanceId s) (completed g1)\<rparr>
         | Inl msg \<Rightarrow>
             (modify_node (instanceId s)
                (\<lambda>n. n\<lparr>status := Failed, error := Some msg, result := error_record msg\<rparr>) g1)
               \<lparr>running := running g1 - {instanceId s},
                completed := insert (instanceId s) (completed g1)\<rparr>)"

text \<open>
  A batch: every ready node is started and the driver waits for all of them.  A node of the
  batch reads only the results of its dependencies, which completed in an earlier batch, so the
  batch is run one node after the other.
\<close>

definition run_batch :: "Env \<Rightarrow> ExecutionNode list \<Rightarrow> ExecutionGraph \<Rightarrow> ExecutionGraph" where
  "run_batch env readySteps g = fold (executeStep env) readySteps g"

datatype exec_error = Deadlock

definition deadlock_message :: string where
  "deadlock_message = ''Workflow deadlock detected - no steps can execute''"

text \<open>
  The \<^verbatim>\<open>while\<close> loop of \<^verbatim>\<open>execute\<close>.  With nothing ready and something running the driver
  sleeps and polls again, on an unchanged graph; a run that polls forever has the value \<open>None\<close>.
\<close>

partial_function (option) execute_loop :: "Env \<Rightarrow> nat \<Rightarrow> ExecutionGraph \<Rightarrow> (exec_error + ExecutionGraph) option" where
  "execute_loop env stepCount g =
     (if card (completed g) < stepCount then
        (if getReadySteps g = [] then
           (if card (running g) = 0 then Some (Inl Deadlock)
            else execute_loop env stepCount g)
         else execute_loop env stepCount (run_batch env (getReadySteps g) g))
      else Some (Inr g))"

text \<open>The results \<^verbatim>\<open>Map\<close>: the nodes with a truthy result, in the order of the nodes.\<close>

definition collect_results :: "ExecutionGraph \<Rightarrow> (string \<times> jsval) list" where
  "collect_results g =
     map (\<lambda>(k, n). (k, result n)) (filter (\<lambda>(k, n). truthy (result n)) (nodes g))"

text \<open>\<^verbatim>\<open>new ParallelWorkflowExecutor(steps).execute()\<close>, with the graph the executor is left in.\<close>

definition execute :: "Env \<Rightarrow> WorkflowStep list \<Rightarrow> (exec_error + (string \<times> jsval) list \<times> ExecutionGraph) option" where
  "execute env steps =
     (case execute_loop env (length steps) (init_graph steps) of
        None \<Rightarrow> None
      | Some (Inl e) \<Rightarrow> Some (Inl e)
      | Some (Inr g) \<Rightarrow> Some (Inr (collect_results g, g)))"

subsection \<open>analyzeParallelism\<close>

text \<open>A \<^verbatim>\<open>Set\<close> that is iterated: its elements in insertion order.\<close>

definition set_add :: "'a \<Rightarrow> 'a list \<Rightarrow> 'a list" where
  "set_add x xs = (if x \<in> set xs then xs else xs @ [x])"

definition new_Set :: "'a list \<Rightarrow> 'a list" where
  "new_Set xs = fold set_add xs []"

text \<open>\<^verbatim>\<open>(inDegree.get(id) || 1) - 1\<close>: a missing entry and the entry 0 both count as 1.\<close>

definition decremented :: "int option \<Rightarrow> int" where
  "decremented d = (case d of None \<Rightarrow> 1 | Some x \<Rightarrow> if x = 0 then 1 else x) - 1"

definition decrease_dependents :: "WorkflowStep list \<Rightarrow> string \<Rightarrow> string list \<Rightarrow> (string \<Rightarrow> int option) \<Rightarrow> (string \<Rightarrow> int option)" where
  "decrease_dependents steps stepId remaining inDegree =
     fold (\<lambda>s d. if stepId \<in> set (deps_of s) \<and> instanceId s \<in> set remaining
                  then d(instanceId s \<mapsto> decremented (d (instanceId s))) else d)
          steps inDegree"

definition remove_from_level :: "WorkflowStep list \<Rightarrow> string \<Rightarrow> (string \<Rightarrow> int option) \<times> string list \<Rightarrow> (string \<Rightarrow> int option) \<times> string list" where
  "remove_from_level steps stepId st =
     (decrease_dependents steps stepId (removeAll stepId (snd st)) (fst st), removeAll stepId (snd st))"

definition zero_level :: "(string \<Rightarrow> int option) \<Rightarrow> string list \<Rightarrow> string list" where
  "zero_level inDegree remaining = filter (\<lambda>stepId. inDegree stepId = Some 0) remaining"

function analyze_loop :: "WorkflowStep list \<Rightarrow> (string \<Rightarrow> int option) \<Rightarrow> string list \<Rightarrow> string list list \<Rightarrow> string list list" where
  "analyze_loop steps inDegree remaining levels =
     (if length remaining > 0 then
        (if length (zero_level inDegree remaining) = 0 then levels
         else analyze_loop steps
                (fst (fold (remove_from_level steps) (zero_level inDegree remaining) (inDegree, remaining)))
                (snd (fold (remove_from_level steps) (zero_level inDegree remaining) (inDegree, remaining)))
                (levels @ [zero_level inDegree remaining]))
      else levels)"
  by pat_completeness auto
termination
proof (relation "measure (\<lambda>(steps, inDegree, remaining, levels). length remaining)")
  show "wf (measure (\<lambda>(steps, inDegree, remaining, levels). length remaining))" by simp
next
  fix steps :: "WorkflowStep list" and inDegree :: "string \<Rightarrow> int option"
    and remaining :: "string list" and levels :: "string list list"
  assume nonempty: "length (zero_level inDegree remaining) \<noteq> 0"
  have snd_fold: "snd (fold (remove_from_level steps) lv (d, r)) = filter (\<lambda>x. x \<notin> set lv) r"
    for lv d r
    by (induction lv arbitrary: d r)
       (auto simp: remove_from_level_def removeAll_filter_not_eq intro!: filter_cong)
  obtain x where x: "x \<in> set (zero_level inDegree remaining)"
    using nonempty by (cases "zero_level inDegree remaining") auto
  then have "x \<in> set remaining" by (simp add: zero_level_def)
  then have "length (filter (\<lambda>y. y \<notin> set (zero_level inDegree remaining)) remaining) < length remaining"
    using x by (intro length_filter_less[of x]) auto
  then show "((steps,
        fst (fold (remove_from_level steps) (zero_level inDegree remaining) (inDegree, remaining)),
        snd (fold (remove_from_level steps) (zero_level inDegree remaining) (inDegree, remaining)),
        levels @ [zero_level inDegree remaining]),
       (steps, inDegree, remaining, levels))
      \<in> measure (\<lambda>(steps, inDegree, remaining, levels). length remaining)"
    by (simp add: snd_fold)
qed

declare analyze_loop.simps [simp del]

text \<open>\<^verbatim>\<open>Math.max(...xs)\<close> of lengths: \<^verbatim>\<open>-Infinity\<close> when there is no argument.\<close>

datatype max_result = NegInfinity | Finite nat

fun math_max :: "nat list \<Rightarrow> max_result" where
  "math_max [] = NegInfinity"
| "math_max (x # xs) = Finite (fold max xs x)"

record ParallelismAnalysis =
  maxParallelism :: max_result
  levels :: "string list list"
  independentPaths :: nat

text \<open>The \<^verbatim>\<open>inDegree\<close> map as the first \<^verbatim>\<open>forEach\<close> fills it.\<close>

definition initial_inDegree :: "WorkflowStep list \<Rightarrow> string \<Rightarrow> int option" where
  "initial_inDegree steps = fold (\<lambda>s d. d(instanceId s \<mapsto> int (length (deps_of s)))) steps Map.empty"

definition analyzeParallelism :: "WorkflowStep list \<Rightarrow> ParallelismAnalysis" where
  "analyzeParallelism steps =
     (let inDegree = initial_inDegree steps;
          lvls = analyze_loop steps inDegree (new_Set (map instanceId steps)) []
      in \<lparr>maxParallelism = math_max (map length lvls),
          levels = lvls,
          independentPaths =
            (case lvls of [] \<Rightarrow> 1 | l # _ \<Rightarrow> if length l = 0 then 1 else length l)\<rparr>)"

section \<open>The workflow inspector\<close>

text \<open>\<^verbatim>\<open>moduleMap\<close>: the last module of the list with a given id.\<close>

definition module_map :: "Module list \<Rightarrow> string \<Rightarrow> Module option" where
  "module_map modules = fold (\<lambda>m mp. mp(module_id m \<mapsto> m)) modules Map.empty"

record DependencyNode =
  nodeModuleId :: string
  level :: nat
  dependencies :: "string list"
  nodeOutputs :: "DataType list"

subsection \<open>buildDependencyGraph\<close>

definition dependency_entries :: "(string \<Rightarrow> nat option) \<Rightarrow> DataType list \<Rightarrow> string list" where
  "dependency_entries availableData ins =
     concat (map (\<lambda>input.
        if is_required input \<and> availableData (dtype input) = None
        then [''Missing required input: '' @ dtype input]
        else (case availableData (dtype input) of
                Some i \<Rightarrow> [dtype input @ '' from step '' @ string_of_nat i]
              | None \<Rightarrow> [])) ins)"

definition buildDependencyGraph_step :: "(string \<Rightarrow> Module option) \<Rightarrow> nat \<times> WorkflowStep
    \<Rightarrow> DependencyNode list \<times> (string \<Rightarrow> nat option) \<Rightarrow> DependencyNode list \<times> (string \<Rightarrow> nat option)" where
  "buildDependencyGraph_step moduleMap ix st =
     (case moduleMap (moduleId (snd ix)) of
        None \<Rightarrow> st
      | Some m \<Rightarrow>
          (fst st @ [\<lparr>nodeModuleId = moduleId (snd ix), level = fst ix,
                      dependencies = dependency_entries (snd st) (inputs (io m)),
                      nodeOutputs = outputs (io m)\<rparr>],
           fold (\<lambda>output a. a(dtype output \<mapsto> fst ix)) (outputs (io m)) (snd st)))"

definition buildDependencyGraph :: "WorkflowStep list \<Rightarrow> (string \<Rightarrow> Module option) \<Rightarrow> DependencyNode list" where
  "buildDependencyGraph steps moduleMap =
     fst (fold (buildDependencyGraph_step moduleMap) (enumerate 0 steps) ([], Map.empty))"

subsection \<open>validateDataFlow and checkMissingDependencies\<close>

text \<open>
  The messages the two checks push, with the holes of their template literals: the
  zero-based step index, the module id or the data type, and the module name.
\<close>

datatype Diagnostic =
    ModuleNotFound nat string
  | MissingRequiredInput nat string string
  | OptionalInputUnavailable nat string string
  | NoPreviousProvider nat string string

definition quote :: string where
  "quote = [CHR 0x27]"

fun render :: "Diagnostic \<Rightarrow> string" where
  "render (ModuleNotFound index mid) =
     ''Step '' @ string_of_nat (index + 1) @ '': Module '' @ quote @ mid @ quote @ '' not found''"
| "render (MissingRequiredInput index t nm) =
     ''Step '' @ string_of_nat (index + 1) @ '': Missing required input '' @ quote @ t @ quote
       @ '' for module '' @ quote @ nm @ quote"
| "render (OptionalInputUnavailable index t nm) =
     ''Step '' @ string_of_nat (index + 1) @ '': Optional input '' @ quote @ t @ quote
       @ '' not available for module '' @ quote @ nm @ quote"
| "render (NoPreviousProvider index t nm) =
     ''Step '' @ string_of_nat (index + 1) @ '': No previous step provides required '' @ quote @ t
       @ quote @ '' for '' @ quote @ nm @ quote"

record DataFlowState =
  flowErrors :: "Diagnostic list"
  flowWarnings :: "Diagnostic list"
  availableData :: "string set"

definition check_input :: "nat \<Rightarrow> Module \<Rightarrow> string set \<Rightarrow> DataType
    \<Rightarrow> Diagnostic list \<times> Diagnostic list \<Rightarrow> Diagnostic list \<times> Diagnostic list" where
  "check_input index m available input ew =
     (if is_required input \<and> dtype input \<notin> available
      then (fst ew @ [MissingRequiredInput index (dtype input) (name m)], snd ew)
      else if \<not> is_required input \<and> dtype input \<notin> available
      then (fst ew, snd ew @ [OptionalInputUnavailable index (dtype input) (name m)])
      else ew)"

definition validateDataFlow_step :: "(string \<Rightarrow> Module option) \<Rightarrow> nat \<times> WorkflowStep \<Rightarrow> DataFlowState \<Rightarrow> DataFlowState" where
  "validateDataFlow_step moduleMap ix st =
     (case moduleMap (moduleId (snd ix)) of
        None \<Rightarrow> st\<lparr>flowErrors := flowErrors st @ [ModuleNotFound (fst ix) (moduleId (snd ix))]\<rparr>
      | Some m \<Rightarrow>
          (let ew = fold (check_input (fst ix) m (availableData st)) (inputs (io m))
                      (flowErrors st, flowWarnings st)
           in \<lparr>flowErrors = fst ew, flowWarnings = snd ew,
               availableData = fold (\<lambda>output a. insert (dtype output) a) (outputs (io m))
                                 (availableData st)\<rparr>))"

definition validateDataFlow_diag :: "WorkflowStep list \<Rightarrow> (string \<Rightarrow> Module option) \<Rightarrow> DataFlowState" where
  "validateDataFlow_diag steps moduleMap =
     fold (validateDataFlow_step moduleMap) (enumerate 0 steps)
       \<lparr>flowErrors = [], flowWarnings = [], availableData = {}\<rparr>"

definition validateDataFlow :: "WorkflowStep list \<Rightarrow> (string \<Rightarrow> Module option) \<Rightarrow> string list \<times> string list" where
  "validateDataFlow steps moduleMap =
     (map render (flowErrors (validateDataFlow_diag steps moduleMap)),
      map render (flowWarnings (validateDataFlow_diag steps moduleMap)))"

text \<open>
  The \<^verbatim>\<open>for\<close> loop with \<^verbatim>\<open>break\<close> of \<^verbatim>\<open>checkMissingDependencies\<close>: some step before
  \<open>index\<close> has a module with an output of the type.  (The first pass of the function fills a
  set that is never read.)
\<close>

definition dataAvailable :: "WorkflowStep list \<Rightarrow> (string \<Rightarrow> Module option) \<Rightarrow> nat \<Rightarrow> string \<Rightarrow> bool" where
  "dataAvailable steps moduleMap index t =
     list_ex (\<lambda>prev. case moduleMap (moduleId prev) of
                        None \<Rightarrow> False
                      | Some prevModule \<Rightarrow> list_ex (\<lambda>output. dtype output = t) (outputs (io prevModule)))
             (take index steps)"

definition checkMissingDependencies_step :: "WorkflowStep list \<Rightarrow> (string \<Rightarrow> Module option) \<Rightarrow> nat \<times> WorkflowStep \<Rightarrow> Diagnostic list \<Rightarrow> Diagnostic list" where
  "checkMissingDependencies_step steps moduleMap ix errs =
     (case moduleMap (moduleId (snd ix)) of
        None \<Rightarrow> errs
      | Some m \<Rightarrow>
          fold (\<lambda>input es.
                  if is_required input then
                    (if \<not> dataAvailable steps moduleMap (fst ix) (dtype input)
                     then es @ [NoPreviousProvider (fst ix) (dtype input) (name m)] else es)
                  else es)
               (inputs (io m)) errs)"

definition checkMissingDependencies_diag :: "WorkflowStep list \<Rightarrow> (string \<Rightarrow> Module option) \<Rightarrow> Diagnostic list" where
  "checkMissingDependencies_diag steps moduleMap =
     fold (checkMissingDependencies_step steps moduleMap) (enumerate 0 steps) []"

definition checkMissingDependencies :: "WorkflowStep list \<Rightarrow> (string \<Rightarrow> Module option) \<Rightarrow> string list" where
  "checkMissingDependencies steps moduleMap = map render (checkMissingDependencies_diag steps moduleMap)"

subsection \<open>generateSuggestedConnections\<close>

record ModuleConnection =
  fromModule :: string
  toModule :: string
  dataType :: string
  confidence :: real

definition generateSuggestedConnections_step :: "(string \<Rightarrow> Module option) \<Rightarrow> WorkflowStep
    \<Rightarrow> ModuleConnection list \<times> (string \<Rightarrow> string option) \<Rightarrow> ModuleConnection list \<times> (string \<Rightarrow> string option)" where
  "generateSuggestedConnections_step moduleMap s st =
     (case moduleMap (moduleId s) of
        None \<Rightarrow> st
      | Some m \<Rightarrow>
          (fst st @ concat (map (\<lambda>input.
              case snd st (dtype input) of
                None \<Rightarrow> []
              | Some sourceModule \<Rightarrow>
                  [\<lparr>fromModule = sourceModule, toModule = module_id m, dataType = dtype input,
                    confidence = (if is_required input then 0.9 else 0.6)\<rparr>]) (inputs (io m))),
           fold (\<lambda>output a. a(dtype output \<mapsto> module_id m)) (outputs (io m)) (snd st)))"

definition generateSuggestedConnections :: "WorkflowStep list \<Rightarrow> (string \<Rightarrow> Module option) \<Rightarrow> ModuleConnection list" where
  "generateSuggestedConnections steps moduleMap =
     fst (fold (generateSuggestedConnections_step moduleMap) steps ([], Map.empty))"

subsection \<open>suggestHumanInterventionModules\<close>

text \<open>\<^verbatim>\<open>String.prototype.includes\<close>.\<close>

fun str_includes :: "string \<Rightarrow> string \<Rightarrow> bool" where
  "str_includes [] pat = (pat = [])"
| "str_includes (c # cs) pat = (prefix pat (c # cs) \<or> str_includes cs pat)"

text \<open>The light-bulb sign that opens every suggestion, in UTF-8.\<close>

definition bulb :: string where
  "bulb = [CHR 0xF0, CHR 0x9F, CHR 0x92, CHR 0xA1]"

definition highRiskModules :: "string list" where
  "highRiskModules = [''quotation'', ''discount-pricing'', ''email-interact'']"

text \<open>The \<^verbatim>\<open>for\<close> loop over the adjacent pairs of categories; \<open>None\<close> is \<^verbatim>\<open>'unknown'\<close>.\<close>

fun data_gaps :: "bool \<Rightarrow> Category option list \<Rightarrow> string list" where
  "data_gaps hasManualInput (a # b # rest) =
     (if a = Some data_collection \<and> b = Some communication \<and> \<not> hasManualInput
      then [bulb @ '' Data gap detected: Add \"Human Manual Input\" to enrich data between collection and communication'']
      else [])
     @ data_gaps hasManualInput (b # rest)"
| "data_gaps hasManualInput cats = []"

definition suggestHumanInterventionModules :: "WorkflowStep list \<Rightarrow> (string \<Rightarrow> Module option) \<Rightarrow> string list \<Rightarrow> string list" where
  "suggestHumanInterventionModules steps moduleMap errs =
     (let hasHumanDecision = list_ex (\<lambda>s. moduleId s = ''human-decision'') steps;
          hasManualInput = list_ex (\<lambda>s. moduleId s = ''human-manual-input'') steps;
          missingDataErrors = filter (\<lambda>e. str_includes e ''Missing required input'') errs;
          noDataSourceErrors = filter (\<lambda>e. str_includes e ''No previous step provides'') errs;
          hasHighRiskModules = list_ex (\<lambda>s. moduleId s \<in> set highRiskModules) steps;
          categories = map (\<lambda>s. map_option category (moduleMap (moduleId s))) steps
      in (if length missingDataErrors > 0 \<and> \<not> hasManualInput
          then [bulb @ '' Missing data detected. Add \"Human Manual Input\" for data entry by team members'']
          else [])
       @ (if length noDataSourceErrors > 0 \<and> \<not> hasManualInput
          then [bulb @ '' Add \"Human Manual Input\" to manually enter missing information'']
          else [])
       @ (if hasHighRiskModules \<and> \<not> hasHumanDecision
          then [bulb @ '' Financial/communication modules detected. Add \"Human Decision\" for approval checkpoints'']
          else [])
       @ (if length steps > 5 \<and> \<not> hasHumanDecision
          then [bulb @ '' Complex workflow detected. Add \"Human Decision\" for review and approval gates'']
          else [])
       @ data_gaps hasManualInput categories
       @ (if categories \<noteq> [] \<and> last categories = Some analysis \<and> \<not> hasHumanDecision
          then [bulb @ '' Analysis endpoint detected. Add \"Human Decision\" to review insights and approve next actions'']
          else []))"

subsection \<open>validateWorkflow\<close>

record WorkflowValidationResult =
  isValid :: bool
  errors :: "string list"
  warnings :: "string list"
  suggestedConnections :: "ModuleConnection list"
  dependencyGraph :: "DependencyNode list"

definition validateWorkflow :: "WorkflowStep list \<Rightarrow> Module list \<Rightarrow> WorkflowValidationResult" where
  "validateWorkflow steps modules =
     (let moduleMap = module_map modules;
          dataFlowValidation = validateDataFlow steps moduleMap;
          errs = fst dataFlowValidation @ checkMissingDependencies steps moduleMap;
          warns = snd dataFlowValidation @ suggestHumanInterventionModules steps moduleMap errs
      in \<lparr>isValid = (length errs = 0),
          errors = errs,
          warnings = warns,
          suggestedConnections = generateSuggestedConnections steps moduleMap,
          dependencyGraph = buildDependencyGraph steps moduleMap\<rparr>)"

subsection \<open>autoFixWorkflowWithHumanModules\<close>

text \<open>
  The readings of \<^verbatim>\<open>Date.now()\<close> that end up in the ids of the synthetic steps: one for the
  manual-input step, one for the decision step inserted at loop index \<open>i\<close>, one for the final
  decision step.
\<close>

record FixClock =
  manualNow :: nat
  decisionNow :: "nat \<Rightarrow> nat"
  finalNow :: nat

definition manualInputStep :: "FixClock \<Rightarrow> WorkflowStep" where
  "manualInputStep clock =
     \<lparr>instanceId = ''human-manual-input-'' @ string_of_nat (manualNow clock),
      moduleId = ''human-manual-input'',
      config = [(''inputType'', JStr ''Workflow data entry''),
                (''instruction'', JStr ''Please enter the required data for subsequent workflow steps''),
                (''requiredFields'', JStr ''Data as needed by workflow modules''),
                (''assignee'', JStr ''data-entry@company.com'')],
      llm = None, dependsOn = None\<rparr>"

definition decisionStep :: "FixClock \<Rightarrow> nat \<Rightarrow> string \<Rightarrow> WorkflowStep" where
  "decisionStep clock i moduleName =
     \<lparr>instanceId = ''human-decision-'' @ string_of_nat (decisionNow clock i) @ ''-'' @ string_of_nat i,
      moduleId = ''human-decision'',
      config = [(''approver'', JStr ''manager@company.com''),
                (''instruction'', JStr (''Please review and approve '' @ moduleName @ '' before execution'')),
                (''decisionType'', JStr ''Approval'')],
      llm = None, dependsOn = None\<rparr>"

definition finalDecisionStep :: "FixClock \<Rightarrow> WorkflowStep" where
  "finalDecisionStep clock =
     \<lparr>instanceId = ''human-decision-final-'' @ string_of_nat (finalNow clock),
      moduleId = ''human-decision'',
      config = [(''approver'', JStr ''manager@company.com''),
                (''instruction'', JStr ''Please review analysis results and decide on next actions''),
                (''decisionType'', JStr ''Strategic Decision'')],
      llm = None, dependsOn = None\<rparr>"

text \<open>\<^verbatim>\<open>moduleMap.get(id)?.name || 'this operation'\<close> (an empty name is falsy).\<close>

definition moduleName_of :: "(string \<Rightarrow> Module option) \<Rightarrow> string \<Rightarrow> string" where
  "moduleName_of moduleMap mid =
     (case moduleMap mid of
        None \<Rightarrow> ''this operation''
      | Some m \<Rightarrow> if name m = [] then ''this operation'' else name m)"

text \<open>The \<^verbatim>\<open>for\<close> loop that splices a decision step in front of every high-risk step.\<close>

function insert_decisions :: "FixClock \<Rightarrow> (string \<Rightarrow> Module option) \<Rightarrow> nat \<Rightarrow> WorkflowStep list \<Rightarrow> string list
    \<Rightarrow> WorkflowStep list \<times> string list" where
  "insert_decisions clock moduleMap i fixedSteps changes =
     (if i < length fixedSteps then
        (if moduleId (fixedSteps ! i) \<in> set highRiskModules then
           (if \<not> (i > 0 \<and> moduleId (fixedSteps ! (i - 1)) = ''human-decision'') then
              insert_decisions clock moduleMap (i + 2)
                (take i fixedSteps
                   @ [decisionStep clock i (moduleName_of moduleMap (moduleId (fixedSteps ! i)))]
                   @ drop i fixedSteps)
                (changes @ [''Added \"Human Decision\" approval checkpoint before ''
                              @ moduleName_of moduleMap (moduleId (fixedSteps ! i))])
            else insert_decisions clock moduleMap (i + 1) fixedSteps changes)
         else insert_decisions clock moduleMap (i + 1) fixedSteps changes)
      else (fixedSteps, changes))"
  by pat_completeness auto
termination
  by (relation "measure (\<lambda>(clock, moduleMap, i, fixedSteps, changes). length fixedSteps - i)") auto

declare insert_decisions.simps [simp del]

record AutoFixResult =
  fixedSteps :: "WorkflowStep list"
  changes :: "string list"

text \<open>
  Step 3 of the repair: a final decision step after a last step of category analysis.  (The
  repair runs on an invalid workflow only, which has at least one step, so there is a last
  step.)
\<close>

definition add_final_decision :: "FixClock \<Rightarrow> (string \<Rightarrow> Module option) \<Rightarrow> WorkflowStep list \<times> string list \<Rightarrow> AutoFixResult" where
  "add_final_decision clock moduleMap w =
     (let lastStep = last (fst w)
      in if map_option category (moduleMap (moduleId lastStep)) = Some analysis \<and>
            moduleId lastStep \<noteq> ''human-decision''
         then \<lparr>fixedSteps = fst w @ [finalDecisionStep clock],
               changes = snd w
                 @ [''Added final \"Human Decision\" to review analysis and approve next actions'']\<rparr>
         else \<lparr>fixedSteps = fst w, changes = snd w\<rparr>)"

definition autoFixWorkflowWithHumanModules :: "FixClock \<Rightarrow> WorkflowStep list \<Rightarrow> Module list \<Rightarrow> AutoFixResult" where
  "autoFixWorkflowWithHumanModules clock steps modules =
     (let moduleMap = module_map modules;
          validation = validateWorkflow steps modules
      in if \<not> isValid validation then
           (let missingDataErrors =
                  filter (\<lambda>e. str_includes e ''Missing required input'' \<or>
                               str_includes e ''No previous step provides'') (errors validation);
                withManual =
                  (if length missingDataErrors > 0
                   then (manualInputStep clock # steps,
                         [''Added \"Human Manual Input\" for data entry by team members''])
                   else (steps, []))
            in add_final_decision clock moduleMap
                 (insert_decisions clock moduleMap 0 (fst withManual) (snd withManual)))
         else \<lparr>fixedSteps = steps, changes = []\<rparr>)"

section \<open>Notions used in the statements and proofs\<close>

text \<open>The dependency relation of a step list, and what a cycle in it is.\<close>

definition dep_rel :: "WorkflowStep list \<Rightarrow> (string \<times> string) set" where
  "dep_rel steps = set (concat (map (\<lambda>s. map (\<lambda>d. (instanceId s, d)) (deps_of s)) steps))"

definition has_cycle :: "WorkflowStep list \<Rightarrow> bool" where
  "has_cycle steps \<longleftrightarrow> \<not> acyclic (dep_rel steps)"

text \<open>The data model's invariant on a step list: ids are unique and dependencies name steps.\<close>

definition well_formed :: "WorkflowStep list \<Rightarrow> bool" where
  "well_formed steps \<longleftrightarrow>
     distinct (map instanceId steps) \<and>
     (\<forall>s \<in> set steps. set (deps_of s) \<subseteq> instanceId ` set steps)"

definition terminal :: "Status \<Rightarrow> bool" where
  "terminal st \<longleftrightarrow> st = Completed \<or> st = Failed"

text \<open>The measure of the driver's loop: the nodes still pending.\<close>

definition npending :: "ExecutionGraph \<Rightarrow> nat" where
  "npending g = length (filter (\<lambda>(k, n). status n = Pending) (nodes g))"

text \<open>
  How a batch over the keys \<open>K\<close> changes a graph: nodes under a key of \<open>K\<close> end terminal, the
  others are untouched, and no node changes its key or its step.
\<close>

definition node_evolves :: "string set \<Rightarrow> string \<times> ExecutionNode \<Rightarrow> string \<times> ExecutionNode \<Rightarrow> bool" where
  "node_evolves K p q \<longleftrightarrow>
     fst q = fst p \<and> step (snd q) = step (snd p) \<and>
     (if fst p \<in> K then terminal (status (snd q)) else snd q = snd p)"

definition evolves :: "string set \<Rightarrow> ExecutionGraph \<Rightarrow> ExecutionGraph \<Rightarrow> bool" where
  "evolves K g g' \<longleftrightarrow>
     list_all2 (node_evolves K) (nodes g) (nodes g') \<and>
     completed g' = completed g \<union> K \<and> running g' = running g - K"

text \<open>What holds of the graph whenever the driver is at the head of its loop.\<close>

definition graph_inv :: "ExecutionGraph \<Rightarrow> bool" where
  "graph_inv g \<longleftrightarrow>
     running g = {} \<and> distinct (map fst (nodes g)) \<and>
     (\<forall>(k, n) \<in> set (nodes g). instanceId (step n) = k \<and> status n \<noteq> Running) \<and>
     completed g = {k. \<exists>n. (k, n) \<in> set (nodes g) \<and> status n \<noteq> Pending}"

definition same_steps :: "ExecutionGraph \<Rightarrow> ExecutionGraph \<Rightarrow> bool" where
  "same_steps g0 g \<longleftrightarrow> map (\<lambda>(k, n). (k, step n)) (nodes g) = map (\<lambda>(k, n). (k, step n)) (nodes g0)"

section \<open>Example workflows\<close>

definition plain_step :: "string \<Rightarrow> string \<Rightarrow> string list \<Rightarrow> WorkflowStep" where
  "plain_step sid mid ds = \<lparr>instanceId = sid, moduleId = mid, config = [], llm = None, dependsOn = Some ds\<rparr>"

text \<open>An installation with an empty module catalogue: every step fails with "Module not found".\<close>

definition env_none :: Env where
  "env_none = \<lparr>getById = (\<lambda>mid. None), moduleExecutors = (\<lambda>mid. None), isoNow = (\<lambda>sid. []),
                assignExotic = (\<lambda>target source. Inr target)\<rparr>"

text \<open>Two steps that wait for each other, and a chain of two.\<close>

definition steps_xy :: "WorkflowStep list" where
  "steps_xy = [plain_step ''X'' ''m'' [''Y''], plain_step ''Y'' ''m'' [''X'']]"

definition steps_ab :: "WorkflowStep list" where
  "steps_ab = [plain_step ''A'' ''m'' [], plain_step ''B'' ''m'' [''A'']]"

text \<open>
  A small catalogue: \<open>echo\<close> returns its input, \<open>zero\<close> returns the number 0, \<open>boom\<close> throws,
  \<open>two\<close> and \<open>one\<close> return product lists, \<open>count\<close> returns a product count.
\<close>

definition demo_module :: "string \<Rightarrow> Module" where
  "demo_module mid = \<lparr>module_id = mid, name = mid, io = \<lparr>inputs = [], outputs = []\<rparr>, category = processing\<rparr>"

definition demo_executor :: "string \<Rightarrow> ((string \<times> jsval) list \<Rightarrow> jsval \<Rightarrow> string option \<Rightarrow> string + jsval) option" where
  "demo_executor mid =
     (if mid = ''echo'' then Some (\<lambda>cfg input l. Inr input)
      else if mid = ''zero'' then Some (\<lambda>cfg input l. Inr (JNum 0))
      else if mid = ''boom'' then Some (\<lambda>cfg input l. Inl ''boom'')
      else if mid = ''two'' then Some (\<lambda>cfg input l. Inr (JObj [(''products'', JArr [JStr ''p1'', JStr ''p2''])]))
      else if mid = ''one'' then Some (\<lambda>cfg input l. Inr (JObj [(''products'', JArr [JStr ''p3''])]))
      else if mid = ''count'' then Some (\<lambda>cfg input l. Inr (JObj [(''products'', JNum 3)]))
      else None)"

definition env_demo :: Env where
  "env_demo = \<lparr>getById = (\<lambda>mid. if mid \<in> {''echo'', ''zero'', ''boom'', ''two'', ''one'', ''count''} then Some (demo_module mid) else None),
                moduleExecutors = demo_executor, isoNow = (\<lambda>sid. []),
                assignExotic = (\<lambda>target source. Inr target)\<rparr>"

definition done_node :: "WorkflowStep \<Rightarrow> jsval \<Rightarrow> ExecutionNode" where
  "done_node s r = \<lparr>step = s, status = Completed, result = r, error = None\<rparr>"

definition failed_node :: "WorkflowStep \<Rightarrow> string \<Rightarrow> ExecutionNode" where
  "failed_node s msg = \<lparr>step = s, status = Failed, result = error_record msg, error = Some msg\<rparr>"

definition steps_zero :: "WorkflowStep list" where
  "steps_zero = [plain_step ''Z'' ''zero'' []]"

definition graph_zero :: ExecutionGraph where
  "graph_zero = \<lparr>nodes = [(''Z'', done_node (plain_step ''Z'' ''zero'' []) (JNum 0))],
                  completed = {''Z''}, running = {}\<rparr>"

definition steps_fail :: "WorkflowStep list" where
  "steps_fail = [plain_step ''A'' ''missing'' [], plain_step ''B'' ''boom'' [],
                 plain_step ''C'' ''echo'' [''A''], plain_step ''D'' ''echo'' [''A'', ''B'']]"


definition graph_products :: ExecutionGraph where
  "graph_products =
     \<lparr>nodes = [(''A'', done_node (plain_step ''A'' ''two'' []) (JObj [(''products'', JArr [JStr ''p1'', JStr ''p2''])])),
               (''B'', done_node (plain_step ''B'' ''one'' []) (JObj [(''products'', JArr [JStr ''p3''])])),
               (''N'', done_node (plain_step ''N'' ''count'' []) (JObj [(''products'', JNum 3)]))],
      completed = {''A'', ''B'', ''N''}, running = {}\<rparr>"

definition steps_mixed :: "WorkflowStep list" where
  "steps_mixed = [plain_step ''N'' ''count'' [], plain_step ''A'' ''two'' [],
                  plain_step ''C'' ''echo'' [''N'', ''A'']]"

section \<open>Notions used in the statements about the inspector\<close>

text \<open>
  A step provides a data type when its module is found and lists the type among its outputs.
  What is available before step \<open>i\<close> is what the steps of lower index provide.
\<close>

definition provides :: "(string \<Rightarrow> Module option) \<Rightarrow> WorkflowStep \<Rightarrow> string \<Rightarrow> bool" where
  "provides moduleMap s t =
     (case moduleMap (moduleId s) of None \<Rightarrow> False | Some m \<Rightarrow> t \<in> dtype ` set (outputs (io m)))"

definition available_before :: "WorkflowStep list \<Rightarrow> (string \<Rightarrow> Module option) \<Rightarrow> nat \<Rightarrow> string set" where
  "available_before steps moduleMap i = {t. \<exists>s \<in> set (take i steps). provides moduleMap s t}"

text \<open>What the data-flow check and the missing-dependency check report for one step.\<close>

definition unmet_required :: "string set \<Rightarrow> Module \<Rightarrow> DataType list" where
  "unmet_required available m =
     filter (\<lambda>input. is_required input \<and> dtype input \<notin> available) (inputs (io m))"

definition unmet_optional :: "string set \<Rightarrow> Module \<Rightarrow> DataType list" where
  "unmet_optional available m =
     filter (\<lambda>input. \<not> is_required input \<and> dtype input \<notin> available) (inputs (io m))"

definition flow_errors_at :: "(string \<Rightarrow> Module option) \<Rightarrow> string set \<Rightarrow> nat \<times> WorkflowStep \<Rightarrow> Diagnostic list" where
  "flow_errors_at moduleMap available ix =
     (case moduleMap (moduleId (snd ix)) of
        None \<Rightarrow> [ModuleNotFound (fst ix) (moduleId (snd ix))]
      | Some m \<Rightarrow> map (\<lambda>input. MissingRequiredInput (fst ix) (dtype input) (name m))
                     (unmet_required available m))"

definition flow_warnings_at :: "(string \<Rightarrow> Module option) \<Rightarrow> string set \<Rightarrow> nat \<times> WorkflowStep \<Rightarrow> Diagnostic list" where
  "flow_warnings_at moduleMap available ix =
     (case moduleMap (moduleId (snd ix)) of
        None \<Rightarrow> []
      | Some m \<Rightarrow> map (\<lambda>input. OptionalInputUnavailable (fst ix) (dtype input) (name m))
                     (unmet_optional available m))"

definition missing_at :: "(string \<Rightarrow> Module option) \<Rightarrow> string set \<Rightarrow> nat \<times> WorkflowStep \<Rightarrow> Diagnostic list" where
  "missing_at moduleMap available ix =
     (case moduleMap (moduleId (snd ix)) of
        None \<Rightarrow> []
      | Some m \<Rightarrow> map (\<lambda>input. NoPreviousProvider (fst ix) (dtype input) (name m))
                     (unmet_required available m))"

text \<open>
  The pairs of step index and data type a check flags, read off the diagnostics it pushes;
  and a workflow in which two steps provide the same type.
\<close>

definition flagged_by_dataflow :: "WorkflowStep list \<Rightarrow> (string \<Rightarrow> Module option) \<Rightarrow> (nat \<times> string) set" where
  "flagged_by_dataflow steps moduleMap =
     {(i, t). \<exists>nm. MissingRequiredInput i t nm \<in> set (flowErrors (validateDataFlow_diag steps moduleMap))}"

definition flagged_by_missing :: "WorkflowStep list \<Rightarrow> (string \<Rightarrow> Module option) \<Rightarrow> (nat \<times> string) set" where
  "flagged_by_missing steps moduleMap =
     {(i, t). \<exists>nm. NoPreviousProvider i t nm \<in> set (checkMissingDependencies_diag steps moduleMap)}"

fun as_no_provider :: "Diagnostic \<Rightarrow> Diagnostic list" where
  "as_no_provider (MissingRequiredInput i t nm) = [NoPreviousProvider i t nm]"
| "as_no_provider d = []"

definition produced_twice :: "WorkflowStep list \<Rightarrow> (string \<Rightarrow> Module option) \<Rightarrow> bool" where
  "produced_twice steps moduleMap \<longleftrightarrow>
     (\<exists>t i j. i < j \<and> j < length steps \<and> provides moduleMap (steps ! i) t \<and> provides moduleMap (steps ! j) t)"

text \<open>
  The indices below \<open>i\<close> of the steps that provide a type, in increasing order, with the last
  and the first of them; and the entry of the dependency graph for one step.
\<close>

definition providers :: "WorkflowStep list \<Rightarrow> (string \<Rightarrow> Module option) \<Rightarrow> nat \<Rightarrow> string \<Rightarrow> nat list" where
  "providers steps moduleMap i t =
     filter (\<lambda>j. provides moduleMap (steps ! j) t) [0..<min i (length steps)]"

definition latest_provider :: "WorkflowStep list \<Rightarrow> (string \<Rightarrow> Module option) \<Rightarrow> nat \<Rightarrow> string \<Rightarrow> nat option" where
  "latest_provider steps moduleMap i t =
     (if providers steps moduleMap i t = [] then None else Some (last (providers steps moduleMap i t)))"

definition earliest_provider :: "WorkflowStep list \<Rightarrow> (string \<Rightarrow> Module option) \<Rightarrow> nat \<Rightarrow> string \<Rightarrow> nat option" where
  "earliest_provider steps moduleMap i t =
     (if providers steps moduleMap i t = [] then None else Some (hd (providers steps moduleMap i t)))"

definition graph_entry_at :: "(string \<Rightarrow> Module option) \<Rightarrow> (string \<Rightarrow> nat option) \<Rightarrow> nat \<times> WorkflowStep \<Rightarrow> DependencyNode list" where
  "graph_entry_at moduleMap available ix =
     (case moduleMap (moduleId (snd ix)) of
        None \<Rightarrow> []
      | Some m \<Rightarrow> [\<lparr>nodeModuleId = moduleId (snd ix), level = fst ix,
                     dependencies = dependency_entries available (inputs (io m)),
                     nodeOutputs = outputs (io m)\<rparr>])"

text \<open>Manual-input steps, the note of the repair, and the errors that call for data entry.\<close>

definition is_manual_input :: "WorkflowStep \<Rightarrow> bool" where
  "is_manual_input s \<longleftrightarrow> moduleId s = ''human-manual-input''"

definition manual_note :: string where
  "manual_note = ''Added \"Human Manual Input\" for data entry by team members''"

definition data_entry_error :: "string \<Rightarrow> bool" where
  "data_entry_error e \<longleftrightarrow>
     str_includes e ''Missing required input'' \<or> str_includes e ''No previous step provides''"

section \<open>Example catalogue and workflows for the inspector\<close>

text \<open>
  The scraper as the repository's catalogue declares it, and a quotation module that requires
  products and takes customers optionally.
\<close>

definition scraper_module :: Module where
  "scraper_module = \<lparr>module_id = ''ecommerce-scraper'', name = ''E-commerce Scrapper'',
     io = \<lparr>inputs = [], outputs = [\<lparr>dtype = ''products'', required = Some True\<rparr>]\<rparr>,
     category = data_collection\<rparr>"

definition quotation_module :: Module where
  "quotation_module = \<lparr>module_id = ''quotation'', name = ''New and Revised Quotation'',
     io = \<lparr>inputs = [\<lparr>dtype = ''products'', required = Some True\<rparr>,
                     \<lparr>dtype = ''customers'', required = Some False\<rparr>],
           outputs = [\<lparr>dtype = ''quotes'', required = None\<rparr>]\<rparr>,
     category = communication\<rparr>"

definition demo_modules :: "Module list" where
  "demo_modules = [scraper_module, quotation_module]"

definition steps_dup :: "WorkflowStep list" where
  "steps_dup = [plain_step ''q1'' ''quotation'' [], plain_step ''s1'' ''ecommerce-scraper'' [],
                plain_step ''s2'' ''ecommerce-scraper'' [], plain_step ''q2'' ''quotation'' []]"

definition steps_quote_first :: "WorkflowStep list" where
  "steps_quote_first = [plain_step ''q1'' ''quotation'' [], plain_step ''s1'' ''ecommerce-scraper'' []]"

definition products_input :: DataType where
  "products_input = \<lparr>dtype = ''products'', required = Some True\<rparr>"

definition steps_two_providers :: "WorkflowStep list" where
  "steps_two_providers = [plain_step ''s1'' ''ecommerce-scraper'' [], plain_step ''s2'' ''ecommerce-scraper'' [],
                          plain_step ''u'' ''unknown'' [], plain_step ''q'' ''quotation'' []]"

definition steps_valid :: "WorkflowStep list" where
  "steps_valid = [plain_step ''s1'' ''ecommerce-scraper'' [], plain_step ''q1'' ''quotation'' []]"

definition steps_unknown :: "WorkflowStep list" where
  "steps_unknown = [plain_step ''u'' ''unknown'' []]"

definition clock0 :: FixClock where
  "clock0 = \<lparr>manualNow = 1700000000000, decisionNow = (\<lambda>i. 1700000000001 + i), finalNow = 1700000000009\<rparr>"

section \<open>Notions used in the statements about the parallelism analysis\<close>

text \<open>
  A pure chain: the first step depends on nothing, every later step on exactly the step
  before it.  Fully independent steps: no step depends on anything.
\<close>

fun is_chain :: "string option \<Rightarrow> WorkflowStep list \<Rightarrow> bool" where
  "is_chain prev [] = True"
| "is_chain prev (s # rest) =
     (deps_of s = (case prev of None \<Rightarrow> [] | Some p \<Rightarrow> [p]) \<and> is_chain (Some (instanceId s)) rest)"

definition pure_chain :: "WorkflowStep list \<Rightarrow> bool" where
  "pure_chain steps = is_chain None steps"

definition fully_independent :: "WorkflowStep list \<Rightarrow> bool" where
  "fully_independent steps = list_all (\<lambda>s. deps_of s = []) steps"

text \<open>
  Invariants of the loop.  With the steps in \<open>R\<close> removed, the in-degree counter of a remaining
  step is at least (\<open>counts\<close>) or exactly (\<open>exact_counts\<close>) the number of its dependencies not
  yet removed.  In sound levels every step has all its dependencies in earlier levels.
\<close>

definition counts :: "WorkflowStep list \<Rightarrow> (string \<Rightarrow> int option) \<Rightarrow> string list \<Rightarrow> string set \<Rightarrow> bool" where
  "counts steps d rem R \<longleftrightarrow>
     (\<forall>s \<in> set steps. instanceId s \<in> set rem \<longrightarrow>
        (\<exists>n. d (instanceId s) = Some n \<and> int (card (set (deps_of s) - R)) \<le> n))"

definition sound_levels :: "WorkflowStep list \<Rightarrow> string list list \<Rightarrow> bool" where
  "sound_levels steps L \<longleftrightarrow>
     (\<forall>k < length L. \<forall>s \<in> set steps. instanceId s \<in> set (L ! k) \<longrightarrow>
        set (deps_of s) \<subseteq> set (concat (take k L)))"

definition exact_counts :: "WorkflowStep list \<Rightarrow> (string \<Rightarrow> int option) \<Rightarrow> string list \<Rightarrow> string set \<Rightarrow> bool" where
  "exact_counts steps d rem R \<longleftrightarrow>
     (\<forall>s \<in> set steps. instanceId s \<in> set rem \<longrightarrow>
        d (instanceId s) = Some (int (card (set (deps_of s) - R))))"



section \<open>The driver's loop: invariant and termination\<close>

lemma terminal_simps [simp]:
  "terminal Completed" "terminal Failed" "\<not> terminal Pending" "\<not> terminal Running"
  by (simp_all add: terminal_def)

lemma executeStep_nodes:
  "\<exists>f. nodes (executeStep env node g) =
         map (\<lambda>(k, n). if k = instanceId (step node) then (k, f n) else (k, n)) (nodes g)
       \<and> (\<forall>n. step (f n) = step n \<and> terminal (status (f n)))"
proof (cases "run_step env (mark_running node g) (step node)")
  case (Inl msg)
  then show ?thesis
    by (intro exI[of _ "\<lambda>n. n\<lparr>status := Failed, error := Some msg, result := error_record msg\<rparr>"])
       (auto simp: executeStep_def Let_def modify_node_def mark_running_def)
next
  case (Inr r)
  then show ?thesis
    by (intro exI[of _ "\<lambda>n. n\<lparr>status := Completed, result := r\<rparr>"])
       (auto simp: executeStep_def Let_def modify_node_def mark_running_def)
qed

lemma executeStep_completed:
  "completed (executeStep env node g) = insert (instanceId (step node)) (completed g)"
  by (auto simp: executeStep_def Let_def modify_node_def mark_running_def split: sum.splits)

lemma executeStep_running:
  "running (executeStep env node g) = running g - {instanceId (step node)}"
  by (auto simp: executeStep_def Let_def modify_node_def mark_running_def split: sum.splits)

lemma evolves_step: "evolves {instanceId (step node)} g (executeStep env node g)"
proof -
  obtain f where f: "nodes (executeStep env node g) =
         map (\<lambda>(k, n). if k = instanceId (step node) then (k, f n) else (k, n)) (nodes g)"
     and t: "\<And>n. step (f n) = step n" "\<And>n. terminal (status (f n))"
    using executeStep_nodes by blast
  have "list_all2 (node_evolves {instanceId (step node)}) (nodes g) (nodes (executeStep env node g))"
    unfolding f list_all2_map2
    by (intro list_all2_refl) (auto simp: node_evolves_def t)
  then show ?thesis
    by (auto simp: evolves_def executeStep_completed executeStep_running)
qed

lemma node_evolves_trans:
  "node_evolves K1 p q \<Longrightarrow> node_evolves K2 q r \<Longrightarrow> node_evolves (K1 \<union> K2) p r"
  by (auto simp: node_evolves_def split: if_splits)

lemma evolves_refl: "evolves {} g g"
  by (auto simp: evolves_def node_evolves_def intro: list_all2_refl)

lemma evolves_trans:
  assumes "evolves K1 g g1" "evolves K2 g1 g2"
  shows "evolves (K1 \<union> K2) g g2"
proof -
  have "list_all2 (node_evolves (K1 \<union> K2)) (nodes g) (nodes g2)"
  proof (rule list_all2_trans)
    show "list_all2 (node_evolves K1) (nodes g) (nodes g1)" using assms(1) by (simp add: evolves_def)
    show "list_all2 (node_evolves K2) (nodes g1) (nodes g2)" using assms(2) by (simp add: evolves_def)
  qed (rule node_evolves_trans)
  then show ?thesis using assms by (auto simp: evolves_def)
qed

lemma evolves_batch: "evolves ((\<lambda>n. instanceId (step n)) ` set ns) g (run_batch env ns g)"
proof (induction ns arbitrary: g)
  case Nil
  then show ?case by (simp add: run_batch_def evolves_refl)
next
  case (Cons n ns)
  have "evolves ({instanceId (step n)} \<union> (\<lambda>n. instanceId (step n)) ` set ns) g
          (run_batch env ns (executeStep env n g))"
    by (rule evolves_trans[OF evolves_step Cons.IH])
  then show ?case by (simp add: run_batch_def)
qed

lemma evolves_keys: "evolves K g g' \<Longrightarrow> map fst (nodes g') = map fst (nodes g)"
  unfolding evolves_def
proof (elim conjE)
  assume "list_all2 (node_evolves K) (nodes g) (nodes g')"
  then show ?thesis
    by (induction rule: list_all2_induct) (auto simp: node_evolves_def)
qed

lemma evolves_inv:
  assumes "graph_inv g" "evolves K g g'" "K \<subseteq> fst ` set (nodes g)"
  shows "graph_inv g'"
proof -
  have l: "list_all2 (node_evolves K) (nodes g) (nodes g')" using assms by (simp add: evolves_def)
  have fwd: "\<exists>q \<in> set (nodes g'). node_evolves K p q" if p: "p \<in> set (nodes g)" for p
  proof -
    obtain i where i: "i < length (nodes g)" "nodes g ! i = p"
      using p by (auto simp: in_set_conv_nth)
    have "node_evolves K (nodes g ! i) (nodes g' ! i)" "i < length (nodes g')"
      using l i(1) by (auto dest: list_all2_nthD list_all2_lengthD)
    then show ?thesis using i(2) by (auto intro: nth_mem)
  qed
  have bwd: "\<exists>p \<in> set (nodes g). node_evolves K p q" if q: "q \<in> set (nodes g')" for q
  proof -
    obtain i where i: "i < length (nodes g')" "nodes g' ! i = q"
      using q by (auto simp: in_set_conv_nth)
    have "node_evolves K (nodes g ! i) (nodes g' ! i)" "i < length (nodes g)"
      using l i(1) by (auto dest: list_all2_nthD2 list_all2_lengthD)
    then show ?thesis using i(2) by (auto intro: nth_mem)
  qed
  have 1: "running g' = {}" using assms by (auto simp: evolves_def graph_inv_def)
  have 2: "distinct (map fst (nodes g'))" using assms evolves_keys by (auto simp: graph_inv_def)
  have 3: "\<forall>(k, n) \<in> set (nodes g'). instanceId (step n) = k \<and> status n \<noteq> Running"
  proof (clarify)
    fix k n assume "(k, n) \<in> set (nodes g')"
    then obtain p where "p \<in> set (nodes g)" "node_evolves K p (k, n)" using bwd by blast
    then show "instanceId (step n) = k \<and> status n \<noteq> Running"
      using assms(1) by (cases p) (auto simp: graph_inv_def node_evolves_def split: if_splits)
  qed
  have 4: "completed g' = {k. \<exists>n. (k, n) \<in> set (nodes g') \<and> status n \<noteq> Pending}"
  proof (intro set_eqI iffI)
    fix k assume "k \<in> completed g'"
    then have "k \<in> completed g \<or> k \<in> K" using assms by (auto simp: evolves_def)
    then obtain n where n: "(k, n) \<in> set (nodes g)" "status n \<noteq> Pending \<or> k \<in> K"
      using assms(1,3) by (auto simp: graph_inv_def)
    then obtain q where q: "q \<in> set (nodes g')" "node_evolves K (k, n) q" using fwd by blast
    have "(k, snd q) \<in> set (nodes g')" using q by (cases q) (auto simp: node_evolves_def)
    moreover have "status (snd q) \<noteq> Pending"
      using q(2) n(2) by (cases "k \<in> K") (auto simp: node_evolves_def)
    ultimately show "k \<in> {k. \<exists>n. (k, n) \<in> set (nodes g') \<and> status n \<noteq> Pending}" by blast
  next
    fix k assume "k \<in> {k. \<exists>n. (k, n) \<in> set (nodes g') \<and> status n \<noteq> Pending}"
    then obtain n where n: "(k, n) \<in> set (nodes g')" "status n \<noteq> Pending" by blast
    then obtain p where p: "p \<in> set (nodes g)" "node_evolves K p (k, n)" using bwd by blast
    have c: "completed g' = completed g \<union> K" using assms(2) by (simp add: evolves_def)
    show "k \<in> completed g'"
    proof (cases "k \<in> K")
      case True
      then show ?thesis using c by simp
    next
      case False
      then have "p = (k, n)" using p(2) by (cases p) (auto simp: node_evolves_def)
      then have "k \<in> completed g" using p(1) n(2) assms(1) by (auto simp: graph_inv_def)
      then show ?thesis using c by simp
    qed
  qed
  show ?thesis using 1 2 3 4 by (simp add: graph_inv_def)
qed

lemma npending_evolves_le:
  "list_all2 (node_evolves K) xs ys \<Longrightarrow>
   length (filter (\<lambda>(k, n). status n = Pending) ys) \<le> length (filter (\<lambda>(k, n). status n = Pending) xs)"
  by (induction rule: list_all2_induct) (auto simp: node_evolves_def split: prod.splits if_splits)

lemma npending_evolves_less:
  "list_all2 (node_evolves K) xs ys \<Longrightarrow> \<exists>(k, n) \<in> set xs. k \<in> K \<and> status n = Pending \<Longrightarrow>
   length (filter (\<lambda>(k, n). status n = Pending) ys) < length (filter (\<lambda>(k, n). status n = Pending) xs)"
proof (induction rule: list_all2_induct)
  case Nil
  then show ?case by simp
next
  case (Cons x xs y ys)
  have le: "length (filter (\<lambda>(k, n). status n = Pending) ys) \<le> length (filter (\<lambda>(k, n). status n = Pending) xs)"
    using Cons.hyps(2) by (rule npending_evolves_le)
  show ?case
  proof (cases "fst x \<in> K \<and> status (snd x) = Pending")
    case True
    then show ?thesis using Cons.hyps(1) le by (auto simp: node_evolves_def split: prod.splits)
  next
    case False
    then have "\<exists>(k, n) \<in> set xs. k \<in> K \<and> status n = Pending" using Cons.prems by auto
    then have "length (filter (\<lambda>(k, n). status n = Pending) ys) < length (filter (\<lambda>(k, n). status n = Pending) xs)"
      using Cons.IH by blast
    then show ?thesis using Cons.hyps(1) by (auto simp: node_evolves_def split: prod.splits if_splits)
  qed
qed

lemma ready_nodes:
  assumes "graph_inv g" "n \<in> set (getReadySteps g)"
  shows "(instanceId (step n), n) \<in> set (nodes g)" "status n = Pending"
    "set (deps_of (step n)) \<subseteq> completed g"
  using assms by (auto simp: getReadySteps_def graph_inv_def list_all_iff)

lemma batch_inv:
  assumes "graph_inv g"
  shows "graph_inv (run_batch env (getReadySteps g) g)"
proof (rule evolves_inv[OF assms evolves_batch])
  show "(\<lambda>n. instanceId (step n)) ` set (getReadySteps g) \<subseteq> fst ` set (nodes g)"
    using ready_nodes(1)[OF assms] by force
qed

lemma batch_npending:
  assumes "graph_inv g" "getReadySteps g \<noteq> []"
  shows "npending (run_batch env (getReadySteps g) g) < npending g"
proof -
  obtain n where n: "n \<in> set (getReadySteps g)" using assms(2) by (cases "getReadySteps g") auto
  have "\<exists>(k, m) \<in> set (nodes g). k \<in> (\<lambda>n. instanceId (step n)) ` set (getReadySteps g) \<and> status m = Pending"
    using ready_nodes(1,2)[OF assms(1) n] n by blast
  moreover have "list_all2 (node_evolves ((\<lambda>n. instanceId (step n)) ` set (getReadySteps g)))
      (nodes g) (nodes (run_batch env (getReadySteps g) g))"
    using evolves_batch[of "getReadySteps g" g env] by (simp add: evolves_def)
  ultimately show ?thesis
    unfolding npending_def by (rule npending_evolves_less[rotated])
qed

lemma execute_loop_total:
  assumes "graph_inv g" "Q g"
    and step: "\<And>g. graph_inv g \<Longrightarrow> Q g \<Longrightarrow> getReadySteps g \<noteq> [] \<Longrightarrow> Q (run_batch env (getReadySteps g) g)"
  shows "\<exists>r. execute_loop env stepCount g = Some r \<and>
           (\<forall>g'. r = Inr g' \<longrightarrow> graph_inv g' \<and> Q g' \<and> stepCount \<le> card (completed g')) \<and>
           (\<forall>e. r = Inl e \<longrightarrow>
              (\<exists>g'. graph_inv g' \<and> Q g' \<and> card (completed g') < stepCount \<and> getReadySteps g' = []))"
  using assms(1,2)
proof (induction "npending g" arbitrary: g rule: less_induct)
  case less
  show ?case
  proof (cases "card (completed g) < stepCount")
    case False
    then show ?thesis using less.prems by (subst execute_loop.simps) auto
  next
    case True
    show ?thesis
    proof (cases "getReadySteps g = []")
      case empty: True
      have "running g = {}" using less.prems by (simp add: graph_inv_def)
      then show ?thesis using True empty less.prems by (subst execute_loop.simps) auto
    next
      case False
      let ?g = "run_batch env (getReadySteps g) g"
      have "\<exists>r. execute_loop env stepCount ?g = Some r \<and>
           (\<forall>g'. r = Inr g' \<longrightarrow> graph_inv g' \<and> Q g' \<and> stepCount \<le> card (completed g')) \<and>
           (\<forall>e. r = Inl e \<longrightarrow>
              (\<exists>g'. graph_inv g' \<and> Q g' \<and> card (completed g') < stepCount \<and> getReadySteps g' = []))"
        using less.hyps[OF batch_npending[OF less.prems(1) False] batch_inv[OF less.prems(1)]]
          step[OF less.prems False] by blast
      then show ?thesis using True False by (subst execute_loop.simps) auto
    qed
  qed
qed

lemma fold_update_keys:
  "fst ` set (fold (\<lambda>s ns. AList.update (instanceId s) (new_node s) ns) steps acc)
     = fst ` set acc \<union> instanceId ` set steps"
  by (induction steps arbitrary: acc) (auto simp: dom_update)

lemma fold_update_distinct:
  "distinct (map fst acc) \<Longrightarrow>
   distinct (map fst (fold (\<lambda>s ns. AList.update (instanceId s) (new_node s) ns) steps acc))"
  by (induction steps arbitrary: acc) (auto simp: distinct_update)

lemma set_update_subset: "set (AList.update k v al) \<subseteq> insert (k, v) (set al)"
  by (induction al) auto

lemma fold_update_entries:
  "(k, n) \<in> set (fold (\<lambda>s ns. AList.update (instanceId s) (new_node s) ns) steps acc) \<Longrightarrow>
   (k, n) \<in> set acc \<or> (\<exists>s \<in> set steps. k = instanceId s \<and> n = new_node s)"
proof (induction steps arbitrary: acc)
  case Nil
  then show ?case by simp
next
  case (Cons s steps)
  from Cons.IH[OF Cons.prems[simplified]]
  show ?case using set_update_subset[of "instanceId s" "new_node s" acc] by auto
qed

lemma length_update_le: "length (AList.update k v al) \<le> Suc (length al)"
  by (induction al) auto

lemma fold_update_length:
  "length (fold (\<lambda>s ns. AList.update (instanceId s) (new_node s) ns) steps acc)
     \<le> length acc + length steps"
proof (induction steps arbitrary: acc)
  case Nil
  then show ?case by simp
next
  case (Cons s steps)
  have "length (fold (\<lambda>s ns. AList.update (instanceId s) (new_node s) ns) steps
           (AList.update (instanceId s) (new_node s) acc))
        \<le> length (AList.update (instanceId s) (new_node s) acc) + length steps"
    by (rule Cons.IH)
  then show ?case using length_update_le[of "instanceId s" "new_node s" acc] by simp
qed

lemma init_graph_inv: "graph_inv (init_graph steps)"
proof -
  have "instanceId (step n) = k \<and> status n = Pending"
    if "(k, n) \<in> set (nodes (init_graph steps))" for k n
    using fold_update_entries[of k n steps "[]"] that
    by (auto simp: init_graph_def new_node_def)
  then have "\<forall>(k, n) \<in> set (nodes (init_graph steps)). instanceId (step n) = k \<and> status n = Pending"
    by blast
  moreover have "distinct (map fst (nodes (init_graph steps)))"
    using fold_update_distinct[of "[]" steps] by (simp add: init_graph_def)
  ultimately show ?thesis
    by (auto simp: graph_inv_def init_graph_def)
qed

lemma init_graph_keys: "fst ` set (nodes (init_graph steps)) = instanceId ` set steps"
  using fold_update_keys[of steps "[]"] by (simp add: init_graph_def)

lemma init_graph_steps: "(k, n) \<in> set (nodes (init_graph steps)) \<Longrightarrow> step n \<in> set steps"
  using fold_update_entries[of k n steps "[]"] by (auto simp: init_graph_def new_node_def)

lemma init_graph_length: "length (nodes (init_graph steps)) \<le> length steps"
  using fold_update_length[of steps "[]"] by (simp add: init_graph_def)

lemma evolves_same_steps:
  assumes "evolves K g g'" shows "same_steps g g'"
proof -
  have "list_all2 (node_evolves K) (nodes g) (nodes g')" using assms by (simp add: evolves_def)
  then have "map (\<lambda>(k, n). (k, step n)) (nodes g') = map (\<lambda>(k, n). (k, step n)) (nodes g)"
    by (induction rule: list_all2_induct) (simp_all add: node_evolves_def case_prod_unfold)
  then show ?thesis by (simp add: same_steps_def)
qed

lemma same_steps_trans: "same_steps g0 g \<Longrightarrow> same_steps g g' \<Longrightarrow> same_steps g0 g'"
  by (simp add: same_steps_def)

lemma same_steps_keys: "same_steps g0 g \<Longrightarrow> fst ` set (nodes g) = fst ` set (nodes g0)"
proof -
  assume "same_steps g0 g"
  then have "fst ` set (map (\<lambda>(k, n). (k, step n)) (nodes g)) = fst ` set (map (\<lambda>(k, n). (k, step n)) (nodes g0))"
    by (simp only: same_steps_def)
  moreover have "fst ` set (map (\<lambda>(k, n). (k, step n)) xs) = fst ` set xs" for xs :: "(string \<times> ExecutionNode) list"
    by force
  ultimately show ?thesis by simp
qed

lemma same_steps_length: "same_steps g0 g \<Longrightarrow> length (nodes g) = length (nodes g0)"
proof -
  assume "same_steps g0 g"
  then have "length (map (\<lambda>(k, n). (k, step n)) (nodes g)) = length (map (\<lambda>(k, n). (k, step n)) (nodes g0))"
    by (simp only: same_steps_def)
  then show ?thesis by simp
qed

lemma same_steps_step:
  assumes "same_steps g0 g" "(k, n) \<in> set (nodes g)"
  shows "\<exists>n0. (k, n0) \<in> set (nodes g0) \<and> step n0 = step n"
proof -
  have "(k, step n) \<in> set (map (\<lambda>(k, n). (k, step n)) (nodes g))" using assms(2) by force
  moreover have "set (map (\<lambda>(k, n). (k, step n)) (nodes g)) = set (map (\<lambda>(k, n). (k, step n)) (nodes g0))"
    using assms(1) by (simp only: same_steps_def)
  ultimately have "(k, step n) \<in> set (map (\<lambda>(k, n). (k, step n)) (nodes g0))"
    by blast
  then show ?thesis by auto
qed

lemma batch_same_steps:
  "same_steps g0 g \<Longrightarrow> same_steps g0 (run_batch env ns g)"
  by (erule same_steps_trans) (rule evolves_same_steps[OF evolves_batch])

lemma completed_subset_keys:
  assumes "graph_inv g" shows "completed g \<subseteq> fst ` set (nodes g)"
proof
  fix k assume "k \<in> completed g"
  then have "k \<in> {k. \<exists>n. (k, n) \<in> set (nodes g) \<and> status n \<noteq> Pending}"
    using assms by (simp only: graph_inv_def)
  then obtain n where "(k, n) \<in> set (nodes g)" by blast
  then show "k \<in> fst ` set (nodes g)" by force
qed

text \<open>The loop ends from the constructor's graph, and a normal end has every node terminal.\<close>

lemma execute_loop_from_init:
  assumes Q0: "Q (init_graph steps)"
    and step: "\<And>g. graph_inv g \<Longrightarrow> same_steps (init_graph steps) g \<Longrightarrow> Q g \<Longrightarrow> getReadySteps g \<noteq> []
                 \<Longrightarrow> Q (run_batch env (getReadySteps g) g)"
  shows "\<exists>r. execute_loop env (length steps) (init_graph steps) = Some r \<and>
           (\<forall>g'. r = Inr g' \<longrightarrow> graph_inv g' \<and> same_steps (init_graph steps) g' \<and> Q g' \<and>
                 length steps \<le> card (completed g')) \<and>
           (\<forall>e. r = Inl e \<longrightarrow>
              (\<exists>g'. graph_inv g' \<and> same_steps (init_graph steps) g' \<and> Q g' \<and>
                    card (completed g') < length steps \<and> getReadySteps g' = []))"
proof -
  let ?Q = "\<lambda>g. same_steps (init_graph steps) g \<and> Q g"
  have "\<exists>r. execute_loop env (length steps) (init_graph steps) = Some r \<and>
           (\<forall>g'. r = Inr g' \<longrightarrow> graph_inv g' \<and> ?Q g' \<and> length steps \<le> card (completed g')) \<and>
           (\<forall>e. r = Inl e \<longrightarrow>
              (\<exists>g'. graph_inv g' \<and> ?Q g' \<and> card (completed g') < length steps \<and> getReadySteps g' = []))"
  proof (rule execute_loop_total[where Q = ?Q])
    show "graph_inv (init_graph steps)" by (rule init_graph_inv)
    show "?Q (init_graph steps)" using Q0 by (simp add: same_steps_def)
    show "?Q (run_batch env (getReadySteps g) g)"
      if a: "graph_inv g" and b: "?Q g" and c: "getReadySteps g \<noteq> []" for g
    proof
      show "same_steps (init_graph steps) (run_batch env (getReadySteps g) g)"
        using b by (intro batch_same_steps) simp
      show "Q (run_batch env (getReadySteps g) g)"
        using step[OF a _ _ c] b by simp
    qed
  qed
  then show ?thesis by blast
qed

lemma returned_graph_complete:
  assumes "graph_inv g" "same_steps (init_graph steps) g" "length steps \<le> card (completed g)"
  shows "card (completed g) = length steps"
    and "distinct (map instanceId steps)"
    and "\<forall>(k, n) \<in> set (nodes g). terminal (status n)"
    and "completed g = instanceId ` set steps"
proof -
  have keys: "fst ` set (nodes g) = instanceId ` set steps"
    using same_steps_keys[OF assms(2)] init_graph_keys by simp
  have sub: "completed g \<subseteq> instanceId ` set steps"
    using completed_subset_keys[OF assms(1)] keys by simp
  have "card (completed g) \<le> card (instanceId ` set steps)"
    by (rule card_mono[OF _ sub]) simp
  also have "\<dots> \<le> length steps"
    using card_length[of "map instanceId steps"] by simp
  finally show c: "card (completed g) = length steps" using assms(3) by simp
  have ci: "card (instanceId ` set steps) = length steps"
    using c \<open>card (completed g) \<le> card (instanceId ` set steps)\<close>
      \<open>card (instanceId ` set steps) \<le> length steps\<close> by simp
  then show "distinct (map instanceId steps)"
    by (intro card_distinct) simp
  show ceq: "completed g = instanceId ` set steps"
    by (rule card_subset_eq[OF _ sub]) (simp_all add: c ci)
  then have all: "\<forall>k \<in> fst ` set (nodes g). k \<in> completed g" using keys by simp
  show "\<forall>(k, n) \<in> set (nodes g). terminal (status n)"
  proof (clarify)
    fix k n assume kn: "(k, n) \<in> set (nodes g)"
    then have "k \<in> completed g" using all by force
    then obtain n' where n': "(k, n') \<in> set (nodes g)" "status n' \<noteq> Pending"
      using assms(1) by (auto simp: graph_inv_def)
    have "distinct (map fst (nodes g))" using assms(1) by (simp add: graph_inv_def)
    then have "n' = n" using n'(1) kn by (rule eq_key_imp_eq_value)
    moreover have "status n \<noteq> Running" using kn assms(1) by (auto simp: graph_inv_def)
    ultimately show "terminal (status n)" using n'(2) by (cases "status n") auto
  qed
qed

lemma node_step_in_steps:
  assumes "same_steps (init_graph steps) g" "(k, n) \<in> set (nodes g)"
  shows "step n \<in> set steps"
proof -
  obtain n0 where n0: "(k, n0) \<in> set (nodes (init_graph steps))" "step n0 = step n"
    using same_steps_step[OF assms] by blast
  show ?thesis using init_graph_steps[OF n0(1)] n0(2) by simp
qed

lemma graph_keys:
  "same_steps (init_graph steps) g \<Longrightarrow> fst ` set (nodes g) = instanceId ` set steps"
  using same_steps_keys[of "init_graph steps" g] init_graph_keys by simp

lemma execute_unfold:
  "execute_loop env (length steps) (init_graph steps) = Some r \<Longrightarrow>
   execute env steps = Some (case r of Inl e \<Rightarrow> Inl e | Inr g \<Rightarrow> Inr (collect_results g, g))"
  by (simp add: execute_def split: sum.splits)

lemma cycle_member_has_cyclic_dep:
  assumes "(x, x) \<in> (dep_rel steps)\<^sup>+"
  shows "\<exists>s y. s \<in> set steps \<and> instanceId s = x \<and> y \<in> set (deps_of s) \<and> (y, y) \<in> (dep_rel steps)\<^sup>+"
proof -
  obtain y where y: "(x, y) \<in> dep_rel steps" "(y, x) \<in> (dep_rel steps)\<^sup>*"
    using tranclD[OF assms] by blast
  have "(y, y) \<in> (dep_rel steps)\<^sup>+" using y by (rule rtrancl_into_trancl1[rotated])
  moreover obtain s where "s \<in> set steps" "instanceId s = x" "y \<in> set (deps_of s)"
    using y(1) by (auto simp: dep_rel_def)
  ultimately show ?thesis by blast
qed

lemma batch_completed:
  "completed (run_batch env ns g) = completed g \<union> (\<lambda>n. instanceId (step n)) ` set ns"
  using evolves_batch[of ns g env] by (simp add: evolves_def)

lemma cyclic_never_completes:
  assumes cyc: "has_cycle steps"
  shows "execute env steps = Some (Inl Deadlock)"
proof -
  define C where "C = {x. (x, x) \<in> (dep_rel steps)\<^sup>+}"
  obtain x0 where x0: "x0 \<in> C" using cyc by (auto simp: has_cycle_def acyclic_def C_def)
  let ?Q = "\<lambda>g. distinct (map instanceId steps) \<longrightarrow> C \<inter> completed g = {}"
  have Q0: "?Q (init_graph steps)" by (simp add: init_graph_def)
  have Qstep: "?Q (run_batch env (getReadySteps g) g)"
    if inv: "graph_inv g" and ss: "same_steps (init_graph steps) g" and Q: "?Q g"
      and "getReadySteps g \<noteq> []" for g
  proof
    assume d: "distinct (map instanceId steps)"
    have "instanceId (step n) \<notin> C" if n: "n \<in> set (getReadySteps g)" for n
    proof
      assume "instanceId (step n) \<in> C"
      then obtain s y where s: "s \<in> set steps" "instanceId s = instanceId (step n)"
          "y \<in> set (deps_of s)" "(y, y) \<in> (dep_rel steps)\<^sup>+"
        using cycle_member_has_cyclic_dep unfolding C_def by blast
      have "step n \<in> set steps"
        using node_step_in_steps[OF ss ready_nodes(1)[OF inv n]] .
      then have "s = step n" using s(1,2) d by (meson distinct_map inj_onD)
      then have "y \<in> completed g" using ready_nodes(3)[OF inv n] s(3) by auto
      moreover have "y \<in> C" using s(4) by (simp add: C_def)
      ultimately show False using Q d by blast
    qed
    then show "C \<inter> completed (run_batch env (getReadySteps g) g) = {}"
      using Q d by (auto simp: batch_completed)
  qed
  obtain r where r: "execute_loop env (length steps) (init_graph steps) = Some r"
    and rI: "\<And>g'. r = Inr g' \<Longrightarrow> graph_inv g' \<and> same_steps (init_graph steps) g' \<and> ?Q g' \<and>
                 length steps \<le> card (completed g')"
    using execute_loop_from_init[of ?Q steps env, OF Q0 Qstep] by blast
  have "r = Inl Deadlock"
  proof (cases r)
    case (Inl e)
    then show ?thesis by (cases e) simp
  next
    case (Inr g')
    note g' = rI[OF Inr]
    have d: "distinct (map instanceId steps)"
      and t: "\<forall>(k, n) \<in> set (nodes g'). terminal (status n)"
      using returned_graph_complete[of g' steps] g' by blast+
    obtain s where "s \<in> set steps" "instanceId s = x0"
      using x0 cycle_member_has_cyclic_dep unfolding C_def by blast
    then have "x0 \<in> fst ` set (nodes g')" using graph_keys[of steps g'] g' by auto
    then obtain n where n: "(x0, n) \<in> set (nodes g')" by force
    then have "status n \<noteq> Pending" using t by force
    then have "x0 \<in> {k. \<exists>n. (k, n) \<in> set (nodes g') \<and> status n \<noteq> Pending}" using n by blast
    moreover have "completed g' = {k. \<exists>n. (k, n) \<in> set (nodes g') \<and> status n \<noteq> Pending}"
      using g' by (simp only: graph_inv_def)
    ultimately have "x0 \<in> completed g'" by simp
    then show ?thesis using g' d x0 by blast
  qed
  then show ?thesis using execute_unfold[OF r] by simp
qed

lemma finite_dep_rel: "finite (dep_rel steps)"
  by (simp add: dep_rel_def)

lemma acyclic_progress:
  assumes ac: "\<not> has_cycle steps" and wf: "well_formed steps"
    and inv: "graph_inv g" and ss: "same_steps (init_graph steps) g"
    and lt: "card (completed g) < length steps"
  shows "getReadySteps g \<noteq> []"
proof -
  have keys: "fst ` set (nodes g) = instanceId ` set steps" by (rule graph_keys[OF ss])
  have ck: "card (instanceId ` set steps) = length steps"
    using wf distinct_card[of "map instanceId steps"] by (simp add: well_formed_def)
  have cdef: "completed g = {k. \<exists>n. (k, n) \<in> set (nodes g) \<and> status n \<noteq> Pending}"
    using inv by (simp only: graph_inv_def)
  define P where "P = instanceId ` set steps - completed g"
  have "P \<noteq> {}"
  proof
    assume "P = {}"
    then have "instanceId ` set steps \<subseteq> completed g" by (auto simp: P_def)
    then have "card (instanceId ` set steps) \<le> card (completed g)"
      using completed_subset_keys[OF inv] keys
      by (intro card_mono) (auto intro: finite_subset[of _ "instanceId ` set steps"])
    then show False using lt ck by simp
  qed
  then obtain p where "p \<in> P" by blast
  have "wf ((dep_rel steps)\<inverse>)"
    using ac finite_dep_rel by (intro finite_acyclic_wf_converse) (auto simp: has_cycle_def)
  from wfE_min[OF this \<open>p \<in> P\<close>]
  obtain z where z: "z \<in> P" "\<And>y. (y, z) \<in> (dep_rel steps)\<inverse> \<Longrightarrow> y \<notin> P" by metis
  have "z \<in> fst ` set (nodes g)" using z(1) keys by (simp add: P_def)
  then obtain n where n: "(z, n) \<in> set (nodes g)" by force
  have pend: "status n = Pending"
  proof (rule ccontr)
    assume "status n \<noteq> Pending"
    then have "z \<in> completed g" using n cdef by blast
    then show False using z(1) by (simp add: P_def)
  qed
  have sn: "step n \<in> set steps" using node_step_in_steps[OF ss n] .
  have idn: "instanceId (step n) = z" using inv n by (auto simp: graph_inv_def)
  have "d \<in> completed g" if d: "d \<in> set (deps_of (step n))" for d
  proof -
    have "(z, d) \<in> dep_rel steps" using sn idn d by (auto simp: dep_rel_def)
    then have "d \<notin> P" using z(2) by blast
    moreover have "d \<in> instanceId ` set steps" using wf sn d by (auto simp: well_formed_def)
    ultimately show ?thesis by (simp add: P_def)
  qed
  then have "n \<in> set (getReadySteps g)"
    using n pend by (force simp: getReadySteps_def list_all_iff)
  then show ?thesis by auto
qed

lemma execute_result_collected:
  "execute env steps = Some (Inr (res, g)) \<Longrightarrow> res = collect_results g"
  by (auto simp: execute_def split: option.splits sum.splits)

lemma execute_always_ends:
  "\<exists>r. execute env steps = Some r \<and>
     (\<forall>res g. r = Inr (res, g) \<longrightarrow>
        card (completed g) = length steps \<and>
        fst ` set (nodes g) = instanceId ` set steps \<and>
        (\<forall>(k, n) \<in> set (nodes g). terminal (status n))) \<and>
     (\<not> has_cycle steps \<longrightarrow> well_formed steps \<longrightarrow> (\<exists>res g. r = Inr (res, g)))"
proof -
  obtain r where r: "execute_loop env (length steps) (init_graph steps) = Some r"
    and rI: "\<And>g'. r = Inr g' \<Longrightarrow> graph_inv g' \<and> same_steps (init_graph steps) g' \<and>
                 length steps \<le> card (completed g')"
    and rD: "\<And>e. r = Inl e \<Longrightarrow> \<exists>g'. graph_inv g' \<and> same_steps (init_graph steps) g' \<and>
                    card (completed g') < length steps \<and> getReadySteps g' = []"
    using execute_loop_from_init[of "\<lambda>g. True" steps env] by auto
  let ?r = "case r of Inl e \<Rightarrow> Inl e | Inr g \<Rightarrow> Inr (collect_results g, g)"
  have e: "execute env steps = Some ?r" by (rule execute_unfold[OF r])
  have 1: "card (completed g) = length steps \<and>
        fst ` set (nodes g) = instanceId ` set steps \<and>
        (\<forall>(k, n) \<in> set (nodes g). terminal (status n))" if "?r = Inr (res, g)" for res g
  proof -
    have rg: "r = Inr g" using that by (auto split: sum.splits)
    note g = rI[OF rg]
    have "card (completed g) = length steps"
      using returned_graph_complete(1)[of g steps] g by simp
    moreover have "fst ` set (nodes g) = instanceId ` set steps"
      using graph_keys[of steps g] g by simp
    moreover have "\<forall>(k, n) \<in> set (nodes g). terminal (status n)"
      using returned_graph_complete(3)[of g steps] g by simp
    ultimately show ?thesis by simp
  qed
  have 2: "\<exists>res g. ?r = Inr (res, g)" if "\<not> has_cycle steps" "well_formed steps"
  proof (cases r)
    case (Inl e)
    then obtain g' where "graph_inv g'" "same_steps (init_graph steps) g'"
        "card (completed g') < length steps" "getReadySteps g' = []"
      using rD by blast
    then show ?thesis using acyclic_progress[OF that] by blast
  next
    case (Inr g)
    then show ?thesis by simp
  qed
  show ?thesis
  proof (intro exI[of _ ?r] conjI allI impI)
    show "execute env steps = Some ?r" by (rule e)
  qed (use 1 2 in simp_all)
qed

lemma has_cycle_xy: "has_cycle steps_xy"
proof -
  have "(''X'', ''Y'') \<in> dep_rel steps_xy" "(''Y'', ''X'') \<in> dep_rel steps_xy"
    by (simp_all add: dep_rel_def steps_xy_def plain_step_def deps_of_def)
  then have "(''X'', ''X'') \<in> (dep_rel steps_xy)\<^sup>+" by (rule trancl_into_trancl2[OF _ r_into_trancl])
  then show ?thesis by (auto simp: has_cycle_def acyclic_def)
qed

lemma dep_rel_ab: "dep_rel steps_ab = {(''B'', ''A'')}"
  by (simp add: dep_rel_def steps_ab_def plain_step_def deps_of_def)

lemma no_cycle_ab: "\<not> has_cycle steps_ab"
proof -
  have "acyclic ({} :: (string \<times> string) set)" by (simp add: acyclic_def)
  then show ?thesis by (simp add: has_cycle_def dep_rel_ab acyclic_insert)
qed

lemma well_formed_ab: "well_formed steps_ab"
  by (simp add: well_formed_def steps_ab_def plain_step_def deps_of_def)

section \<open>Claims about the parallel executor\<close>

text \<open>
  C1.  A step list whose \<^verbatim>\<open>dependsOn\<close> relation contains a cycle makes \<^verbatim>\<open>execute\<close> end with
  the deadlock error, and does not let it poll forever.  In the loop, a graph with fewer
  completed ids than steps, nothing ready and nothing running gives the deadlock error at once.
\<close>

theorem execute_deadlock_on_cycle:
  "(has_cycle steps \<longrightarrow> execute env steps = Some (Inl Deadlock)) \<and>
   (card (completed g) < stepCount \<and> getReadySteps g = [] \<and> running g = {}
      \<longrightarrow> execute_loop env stepCount g = Some (Inl Deadlock))"
proof
  show "has_cycle steps \<longrightarrow> execute env steps = Some (Inl Deadlock)"
    using cyclic_never_completes by blast
  show "card (completed g) < stepCount \<and> getReadySteps g = [] \<and> running g = {}
      \<longrightarrow> execute_loop env stepCount g = Some (Inl Deadlock)"
    by (subst execute_loop.simps) simp
qed

lemma init_xy: "card (completed (init_graph steps_xy)) < 2 \<and> getReadySteps (init_graph steps_xy) = [] \<and> running (init_graph steps_xy) = {}"
  by (simp add: init_graph_def steps_xy_def plain_step_def getReadySteps_def new_node_def deps_of_def)

theorem execute_deadlock_on_cycle_witness:
  "has_cycle steps_xy \<and> execute env_none steps_xy = Some (Inl Deadlock) \<and>
   card (completed (init_graph steps_xy)) < 2 \<and> getReadySteps (init_graph steps_xy) = [] \<and>
   running (init_graph steps_xy) = {} \<and>
   execute_loop env_none 2 (init_graph steps_xy) = Some (Inl Deadlock)"
  using execute_deadlock_on_cycle[of steps_xy env_none "init_graph steps_xy" 2] has_cycle_xy init_xy
  by blast

text \<open>
  C2.  On a step list without a cycle \<^verbatim>\<open>execute\<close> terminates; when it returns normally,
  \<^verbatim>\<open>completed\<close> has as many ids as there are steps and every node is completed or failed.
  When moreover the ids are unique and every dependency names a step, it does return normally.
\<close>

theorem execute_acyclic_terminates:
  assumes "\<not> has_cycle steps"
  shows "\<exists>r. execute env steps = Some r \<and>
     (\<forall>res g. r = Inr (res, g) \<longrightarrow>
        card (completed g) = length steps \<and>
        fst ` set (nodes g) = instanceId ` set steps \<and>
        (\<forall>(k, n) \<in> set (nodes g). terminal (status n))) \<and>
     (well_formed steps \<longrightarrow> (\<exists>res g. r = Inr (res, g)))"
  using execute_always_ends[of env steps] assms by simp

theorem execute_acyclic_terminates_witness:
  "\<not> has_cycle steps_ab \<and> well_formed steps_ab \<and>
   (\<exists>res g. execute env_none steps_ab = Some (Inr (res, g)) \<and>
        card (completed g) = length steps_ab \<and>
        fst ` set (nodes g) = instanceId ` set steps_ab \<and>
        (\<forall>(k, n) \<in> set (nodes g). terminal (status n)))"
proof -
  obtain r where r: "execute env_none steps_ab = Some r"
    and ok: "\<forall>res g. r = Inr (res, g) \<longrightarrow>
        card (completed g) = length steps_ab \<and>
        fst ` set (nodes g) = instanceId ` set steps_ab \<and>
        (\<forall>(k, n) \<in> set (nodes g). terminal (status n))"
    and ret: "well_formed steps_ab \<longrightarrow> (\<exists>res g. r = Inr (res, g))"
    using execute_acyclic_terminates[OF no_cycle_ab, of env_none] by (elim exE conjE)
  obtain res g where rg: "r = Inr (res, g)" using ret well_formed_ab by (elim impE exE)
  show ?thesis
  proof (intro conjI exI[of _ res] exI[of _ g])
    show "execute env_none steps_ab = Some (Inr (res, g))" using r rg by simp
  qed (use ok rg no_cycle_ab well_formed_ab in simp_all)
qed

section \<open>Evaluating concrete runs\<close>

lemma execute_loop_done:
  "\<not> card (completed g) < stepCount \<Longrightarrow> execute_loop env stepCount g = Some (Inr g)"
  by (subst execute_loop.simps) simp

lemma execute_loop_batch:
  "card (completed g) < stepCount \<Longrightarrow> getReadySteps g \<noteq> [] \<Longrightarrow>
   execute_loop env stepCount g = execute_loop env stepCount (run_batch env (getReadySteps g) g)"
  by (subst execute_loop.simps) simp

lemma execute_loop_deadlock:
  "card (completed g) < stepCount \<Longrightarrow> getReadySteps g = [] \<Longrightarrow> running g = {} \<Longrightarrow>
   execute_loop env stepCount g = Some (Inl Deadlock)"
  by (subst execute_loop.simps) simp

lemmas exec_eval = execute_def init_graph_def new_node_def
      execute_loop_done execute_loop_batch execute_loop_deadlock getReadySteps_def deps_of_def
      run_batch_def executeStep_def mark_running_def
      modify_node_def run_step_def error_record_def collect_results_def gatherInputs_def
      dep_result_def

lemmas gather_eval = gatherInputs_def deps_of_def dep_result_def get_prop_def plain_step_def done_node_def

section \<open>Results, inputs and failing steps\<close>

lemma execute_returned_graph:
  assumes "execute env steps = Some (Inr (res, g))"
  shows "graph_inv g" "same_steps (init_graph steps) g" "res = collect_results g"
    "length steps \<le> card (completed g)"
proof -
  obtain r where r: "execute_loop env (length steps) (init_graph steps) = Some r"
    and rI: "\<And>g'. r = Inr g' \<Longrightarrow> graph_inv g' \<and> same_steps (init_graph steps) g' \<and>
                 length steps \<le> card (completed g')"
    using execute_loop_from_init[of "\<lambda>g. True" steps env] by auto
  have "r = Inr g" "res = collect_results g"
    using assms execute_unfold[OF r] by (auto split: sum.splits)
  then show "graph_inv g" "same_steps (init_graph steps) g" "res = collect_results g"
    "length steps \<le> card (completed g)"
    using rI by simp_all
qed

lemma collect_results_keys:
  "k \<in> fst ` set (collect_results g) \<longleftrightarrow> (\<exists>n. (k, n) \<in> set (nodes g) \<and> truthy (result n))"
  by (force simp: collect_results_def)

lemma collect_results_entry:
  "(k, v) \<in> set (collect_results g) \<longleftrightarrow> (\<exists>n. (k, n) \<in> set (nodes g) \<and> result n = v \<and> truthy v)"
  by (force simp: collect_results_def)

lemma collect_results_length: "length (collect_results g) \<le> length (nodes g)"
  by (simp add: collect_results_def)

lemma graph_lookup:
  "distinct (map fst (nodes g)) \<Longrightarrow> (k, n) \<in> set (nodes g) \<longleftrightarrow> map_of (nodes g) k = Some n"
  by (auto dest: map_of_SomeD)



lemma gatherInputs_no_deps: "deps_of s = [] \<Longrightarrow> gatherInputs env g s = Inr JNull"
  by (simp add: gatherInputs_def)




lemma executeStep_completed_nodes:
  assumes "run_step env (mark_running node g) (step node) = Inr r"
  shows "nodes (executeStep env node g) =
           map (\<lambda>(k, n). if k = instanceId (step node)
                  then (k, n\<lparr>status := Completed, result := r\<rparr>)
                  else (k, n)) (nodes g)"
  using assms by (auto simp: executeStep_def Let_def modify_node_def mark_running_def)



lemma gatherInputs_products:
  "gatherInputs env graph_products (plain_step ''C'' ''echo'' [''A'', ''B'']) =
     Inr (JObj [(''products'', JArr [JStr ''p1'', JStr ''p2'', JStr ''p3'']),
                (''_sources'', JArr [JStr ''A'', JStr ''B'']),
                (''_allResults'', JArr [JObj [(''products'', JArr [JStr ''p1'', JStr ''p2''])],
                                        JObj [(''products'', JArr [JStr ''p3''])]])])"
  by (simp add: gather_eval graph_products_def)

lemma gatherInputs_scalar_after_array:
  "gatherInputs env graph_products (plain_step ''C'' ''echo'' [''A'', ''N'']) =
     Inr (JObj [(''products'', JArr [JStr ''p1'', JStr ''p2'']),
                (''_sources'', JArr [JStr ''A'', JStr ''N'']),
                (''_allResults'', JArr [JObj [(''products'', JArr [JStr ''p1'', JStr ''p2''])],
                                        JObj [(''products'', JNum 3)]])])"
  by (simp add: gather_eval graph_products_def)

lemma run_mixed:
  "execute env_demo steps_mixed =
     Some (Inr ([(''N'', JObj [(''products'', JNum 3)]),
                 (''A'', JObj [(''products'', JArr [JStr ''p1'', JStr ''p2''])]),
                 (''C'', error_record push_not_a_function)],
       \<lparr>nodes = [(''N'', done_node (plain_step ''N'' ''count'' []) (JObj [(''products'', JNum 3)])),
                 (''A'', done_node (plain_step ''A'' ''two'' []) (JObj [(''products'', JArr [JStr ''p1'', JStr ''p2''])])),
                 (''C'', failed_node (plain_step ''C'' ''echo'' [''N'', ''A'']) push_not_a_function)],
        completed = {''N'', ''A'', ''C''}, running = {}\<rparr>))"
  by (simp add: exec_eval steps_mixed_def plain_step_def env_demo_def demo_executor_def demo_module_def
        hasRealImplementation_def executeModule_def done_node_def failed_node_def get_prop_def insert_commute)

lemma run_fail:
  "execute env_demo steps_fail =
     Some (Inr ([(''A'', error_record ''Module not found: missing''),
                 (''B'', error_record ''boom''),
                 (''C'', error_record ''Module not found: missing''),
                 (''D'', JObj [(''status'', JStr ''error''), (''error'', JStr ''Module not found: missing''),
                              (''_sources'', JArr [JStr ''A'', JStr ''B'']),
                              (''_allResults'', JArr [error_record ''Module not found: missing'',
                                                      error_record ''boom''])])],
       \<lparr>nodes = [(''A'', failed_node (plain_step ''A'' ''missing'' []) ''Module not found: missing''),
                 (''B'', failed_node (plain_step ''B'' ''boom'' []) ''boom''),
                 (''C'', done_node (plain_step ''C'' ''echo'' [''A'']) (error_record ''Module not found: missing'')),
                 (''D'', done_node (plain_step ''D'' ''echo'' [''A'', ''B''])
                    (JObj [(''status'', JStr ''error''), (''error'', JStr ''Module not found: missing''),
                              (''_sources'', JArr [JStr ''A'', JStr ''B'']),
                              (''_allResults'', JArr [error_record ''Module not found: missing'',
                                                      error_record ''boom''])]))],
        completed = {''A'', ''B'', ''C'', ''D''}, running = {}\<rparr>))"
  by (simp add: exec_eval steps_fail_def plain_step_def env_demo_def demo_executor_def demo_module_def
        hasRealImplementation_def executeModule_def done_node_def failed_node_def get_prop_def insert_commute)

lemma run_zero: "execute env_demo steps_zero = Some (Inr ([], graph_zero))"
  by (simp add: exec_eval steps_zero_def plain_step_def env_demo_def demo_executor_def demo_module_def
        hasRealImplementation_def executeModule_def graph_zero_def done_node_def)

text \<open>
  C3.  Input merging.  Without dependencies the input is \<^verbatim>\<open>null\<close>, with one dependency it is
  that dependency's result (lemmas \<open>gatherInputs_no_deps\<close>, \<open>gatherInputs_one_dep\<close>), and a merged
  record carries \<^verbatim>\<open>_sources\<close> and \<^verbatim>\<open>_allResults\<close> (\<open>gatherInputs_reserved_fields\<close>).  The rule
  that a field which is an array in some source merges to the concatenation of the arrays
  fails where an earlier source holds a truthy value that is not an array under the same
  name: with the results \<^verbatim>\<open>{products: 3}\<close> and \<^verbatim>\<open>{products: ["p1","p2"]}\<close>, in this order,
  \<^verbatim>\<open>gatherInputs\<close> calls \<^verbatim>\<open>push\<close> on the number and throws a \<^verbatim>\<open>TypeError\<close>.
\<close>

theorem gatherInputs_array_after_scalar_throws:
  "gatherInputs env graph_products (plain_step ''C'' ''echo'' [''N'', ''A'']) = Inl push_not_a_function"
  by (simp add: gather_eval graph_products_def)






text \<open>
  C10.  When \<^verbatim>\<open>execute\<close> returns, the results hold an entry for a step's id exactly when the
  node of that id holds a truthy result; every step is in \<^verbatim>\<open>completed\<close> all the same, so the
  results can have fewer entries than there are steps although every step completed: a run of
  one step whose executor returns 0 returns the empty mapping.
\<close>

theorem results_hold_truthy_only:
  "(execute env steps = Some (Inr (res, g)) \<longrightarrow>
      res = collect_results g \<and>
      (\<forall>s \<in> set steps. instanceId s \<in> completed g \<and>
         (instanceId s \<in> fst ` set res
            \<longleftrightarrow> (\<exists>n. map_of (nodes g) (instanceId s) = Some n \<and> truthy (result n)))) \<and>
      (\<forall>(k, v) \<in> set res. \<exists>n. map_of (nodes g) k = Some n \<and> result n = v \<and> truthy v) \<and>
      length res \<le> length steps) \<and>
   (\<exists>env' steps' res' g'. execute env' steps' = Some (Inr (res', g')) \<and>
      (\<forall>(k, n) \<in> set (nodes g'). status n = Completed) \<and> length res' < length steps')"
proof (intro conjI impI)
  assume ex: "execute env steps = Some (Inr (res, g))"
  note g = execute_returned_graph[OF ex]
  have d: "distinct (map fst (nodes g))" using g(1) by (simp add: graph_inv_def)
  have c: "completed g = instanceId ` set steps"
    using returned_graph_complete(4)[OF g(1,2,4)] .
  show "res = collect_results g" by (rule g(3))
  show "\<forall>s \<in> set steps. instanceId s \<in> completed g \<and>
         (instanceId s \<in> fst ` set res
            \<longleftrightarrow> (\<exists>n. map_of (nodes g) (instanceId s) = Some n \<and> truthy (result n)))"
    using c by (simp add: g(3) collect_results_keys graph_lookup[OF d])
  show "\<forall>(k, v) \<in> set res. \<exists>n. map_of (nodes g) k = Some n \<and> result n = v \<and> truthy v"
    using collect_results_entry[of _ _ g] by (auto simp: g(3) graph_lookup[OF d])
  have "length res \<le> length (nodes g)" by (simp add: g(3) collect_results_length)
  also have "\<dots> = length (nodes (init_graph steps))" by (rule same_steps_length[OF g(2)])
  also have "\<dots> \<le> length steps" by (rule init_graph_length)
  finally show "length res \<le> length steps" .
next
  show "\<exists>env' steps' res' g'. execute env' steps' = Some (Inr (res', g')) \<and>
      (\<forall>(k, n) \<in> set (nodes g'). status n = Completed) \<and> length res' < length steps'"
    by (intro exI conjI, rule run_zero) (simp_all add: steps_zero_def graph_zero_def done_node_def)
qed

theorem results_hold_truthy_only_witness:
  "execute env_demo steps_zero = Some (Inr ([], graph_zero)) \<and>
   [] = collect_results graph_zero \<and>
   ''Z'' \<in> completed graph_zero \<and>
   ''Z'' \<notin> fst ` set ([] :: (string \<times> jsval) list) \<and>
   \<not> (\<exists>n. map_of (nodes graph_zero) ''Z'' = Some n \<and> truthy (result n)) \<and>
   length ([] :: (string \<times> jsval) list) < length steps_zero"
  using run_zero results_hold_truthy_only[THEN conjunct1, THEN mp, OF run_zero]
  by (simp add: steps_zero_def plain_step_def)

section \<open>Decimal numbers and substrings\<close>

lemma string_of_nat_digit: "n < 10 \<Longrightarrow> string_of_nat n = [digit_char n]"
  by (simp add: string_of_nat.simps)

lemma string_of_nat_more:
  "\<not> n < 10 \<Longrightarrow> string_of_nat n = string_of_nat (n div 10) @ [digit_char (n mod 10)]"
  by (subst string_of_nat.simps) simp

lemmas string_of_nat_eval = string_of_nat_digit string_of_nat_more digit_char_def

lemma str_includes_here: "str_includes (p @ b) p"
proof (cases "p @ b")
  case Nil
  then show ?thesis by simp
next
  case (Cons c cs)
  have "prefix p (p @ b)" by simp
  then show ?thesis using Cons by simp
qed

lemma str_includes_append: "str_includes (a @ p @ b) p"
  by (induction a) (auto simp: str_includes_here)

lemma render_includes_type:
  "str_includes (render (MissingRequiredInput i t nm)) t"
proof -
  have "render (MissingRequiredInput i t nm) =
      (''Step '' @ string_of_nat (i + 1) @ '': Missing required input '' @ quote) @ t @
      (quote @ '' for module '' @ quote @ nm @ quote)"
    by simp
  then show ?thesis by (simp only: str_includes_append)
qed

lemma render_missing_includes:
  "str_includes (render (MissingRequiredInput i t nm)) ''Missing required input''"
proof -
  have "render (MissingRequiredInput i t nm) =
      (''Step '' @ string_of_nat (i + 1) @ '': '') @ ''Missing required input'' @
      ('' '' @ quote @ t @ quote @ '' for module '' @ quote @ nm @ quote)"
    by simp
  then show ?thesis by (simp only: str_includes_append)
qed

section \<open>The data-flow checks in closed form\<close>

lemma fold_check_input:
  "fold (check_input i m A) ins (es, ws) =
     (es @ map (\<lambda>input. MissingRequiredInput i (dtype input) (name m))
             (filter (\<lambda>input. is_required input \<and> dtype input \<notin> A) ins),
      ws @ map (\<lambda>input. OptionalInputUnavailable i (dtype input) (name m))
             (filter (\<lambda>input. \<not> is_required input \<and> dtype input \<notin> A) ins))"
  by (induction ins arbitrary: es ws) (auto simp: check_input_def)

lemma fold_insert_outputs:
  "fold (\<lambda>output a. insert (dtype output) a) outs A = A \<union> dtype ` set outs"
  by (induction outs arbitrary: A) auto

lemma available_before_Suc:
  "i < length steps \<Longrightarrow>
   available_before steps moduleMap (Suc i) =
     available_before steps moduleMap i \<union> {t. provides moduleMap (steps ! i) t}"
  by (auto simp: available_before_def take_Suc_conv_app_nth)

lemma validateDataFlow_step_eq:
  "validateDataFlow_step moduleMap (i, s) \<lparr>flowErrors = E, flowWarnings = W, availableData = A\<rparr> =
     \<lparr>flowErrors = E @ flow_errors_at moduleMap A (i, s),
      flowWarnings = W @ flow_warnings_at moduleMap A (i, s),
      availableData = A \<union> {t. provides moduleMap s t}\<rparr>"
  by (auto simp: validateDataFlow_step_def flow_errors_at_def flow_warnings_at_def provides_def
        fold_check_input fold_insert_outputs unmet_required_def unmet_optional_def Let_def
      split: option.splits)

lemma validateDataFlow_fold:
  "fold (validateDataFlow_step moduleMap) (enumerate (length pre) rest)
     \<lparr>flowErrors = E, flowWarnings = W,
      availableData = available_before (pre @ rest) moduleMap (length pre)\<rparr> =
   \<lparr>flowErrors = E @ concat (map (\<lambda>ix. flow_errors_at moduleMap
                                   (available_before (pre @ rest) moduleMap (fst ix)) ix)
                              (enumerate (length pre) rest)),
    flowWarnings = W @ concat (map (\<lambda>ix. flow_warnings_at moduleMap
                                   (available_before (pre @ rest) moduleMap (fst ix)) ix)
                              (enumerate (length pre) rest)),
    availableData = available_before (pre @ rest) moduleMap (length pre + length rest)\<rparr>"
proof (induction rest arbitrary: pre E W)
  case Nil
  then show ?case by simp
next
  case (Cons s rest)
  have sp: "pre @ s # rest = (pre @ [s]) @ rest" by simp
  have av: "available_before (pre @ s # rest) moduleMap (length pre) \<union> {t. provides moduleMap s t}
          = available_before ((pre @ [s]) @ rest) moduleMap (length (pre @ [s]))"
    using available_before_Suc[of "length pre" "pre @ s # rest" moduleMap] by simp
  show ?case
    using Cons.IH[of "pre @ [s]"]
    by (simp add: validateDataFlow_step_eq av del: append_assoc) (simp add: sp del: append_assoc)
qed

lemma validateDataFlow_diag_closed:
  "validateDataFlow_diag steps moduleMap =
     \<lparr>flowErrors = concat (map (\<lambda>ix. flow_errors_at moduleMap
                                   (available_before steps moduleMap (fst ix)) ix) (enumerate 0 steps)),
      flowWarnings = concat (map (\<lambda>ix. flow_warnings_at moduleMap
                                   (available_before steps moduleMap (fst ix)) ix) (enumerate 0 steps)),
      availableData = available_before steps moduleMap (length steps)\<rparr>"
  using validateDataFlow_fold[of moduleMap "[]" steps "[]" "[]"]
  by (simp add: validateDataFlow_diag_def available_before_def)

lemma provides_iff:
  "provides moduleMap s t \<longleftrightarrow>
     (case moduleMap (moduleId s) of
        None \<Rightarrow> False
      | Some prevModule \<Rightarrow> list_ex (\<lambda>output. dtype output = t) (outputs (io prevModule)))"
  by (cases "moduleMap (moduleId s)") (auto simp: provides_def list_ex_iff)

lemma dataAvailable_iff:
  "dataAvailable steps moduleMap i t \<longleftrightarrow> t \<in> available_before steps moduleMap i"
  by (simp add: dataAvailable_def available_before_def list_ex_iff flip: provides_iff)

lemma checkMissingDependencies_step_eq:
  "checkMissingDependencies_step steps moduleMap (i, s) errs =
     errs @ missing_at moduleMap (available_before steps moduleMap i) (i, s)"
proof (cases "moduleMap (moduleId s)")
  case None
  then show ?thesis by (simp add: checkMissingDependencies_step_def missing_at_def)
next
  case (Some m)
  have "fold (\<lambda>input es.
                  if is_required input then
                    (if \<not> dataAvailable steps moduleMap i (dtype input)
                     then es @ [NoPreviousProvider i (dtype input) (name m)] else es)
                  else es) ins errs
        = errs @ map (\<lambda>input. NoPreviousProvider i (dtype input) (name m))
             (filter (\<lambda>input. is_required input \<and> dtype input \<notin> available_before steps moduleMap i) ins)"
    for ins
    by (induction ins arbitrary: errs) (auto simp: dataAvailable_iff)
  then show ?thesis using Some
    by (simp add: checkMissingDependencies_step_def missing_at_def unmet_required_def cong: if_cong)
qed

lemma checkMissingDependencies_fold:
  "fold (checkMissingDependencies_step steps moduleMap) ixs errs =
     errs @ concat (map (\<lambda>ix. missing_at moduleMap (available_before steps moduleMap (fst ix)) ix) ixs)"
proof (induction ixs arbitrary: errs)
  case Nil
  then show ?case by simp
next
  case (Cons ix ixs)
  show ?case using Cons.IH checkMissingDependencies_step_eq[of steps moduleMap "fst ix" "snd ix"]
    by simp
qed

lemma checkMissingDependencies_diag_closed:
  "checkMissingDependencies_diag steps moduleMap =
     concat (map (\<lambda>ix. missing_at moduleMap (available_before steps moduleMap (fst ix)) ix)
                 (enumerate 0 steps))"
  by (simp add: checkMissingDependencies_diag_def checkMissingDependencies_fold)

section \<open>Claims about the inspector\<close>

lemma as_no_provider_flow_errors:
  "concat (map as_no_provider (flow_errors_at moduleMap A ix)) = missing_at moduleMap A ix"
proof (cases "moduleMap (moduleId (snd ix))")
  case None
  then show ?thesis by (simp add: flow_errors_at_def missing_at_def)
next
  case (Some m)
  have "concat (map as_no_provider (map (\<lambda>input. MissingRequiredInput i (dtype input) nm) ins))
        = map (\<lambda>input. NoPreviousProvider i (dtype input) nm) ins" for i nm and ins :: "DataType list"
    by (induction ins) auto
  then show ?thesis using Some by (simp add: flow_errors_at_def missing_at_def)
qed

lemma concat_map_concat:
  "concat (map f (concat (map g xs))) = concat (map (\<lambda>x. concat (map f (g x))) xs)"
  by (induction xs) auto

lemma diagnostics_agree:
  "checkMissingDependencies_diag steps moduleMap =
     concat (map as_no_provider (flowErrors (validateDataFlow_diag steps moduleMap)))"
  by (simp add: checkMissingDependencies_diag_closed validateDataFlow_diag_closed
        concat_map_concat as_no_provider_flow_errors)

lemma no_provider_in_image:
  "NoPreviousProvider i t nm \<in> set (concat (map as_no_provider ds))
     \<longleftrightarrow> MissingRequiredInput i t nm \<in> set ds"
proof (induction ds)
  case Nil
  then show ?case by simp
next
  case (Cons d ds)
  then show ?case by (cases d) auto
qed

lemma flagged_sets_agree:
  "flagged_by_dataflow steps moduleMap = flagged_by_missing steps moduleMap"
  unfolding flagged_by_dataflow_def flagged_by_missing_def diagnostics_agree
  by (simp only: no_provider_in_image)

text \<open>
  C7.  The claim that for some workflow, with a data type provided by several steps, the two
  checks flag different sets of pairs (step index, required data type) is false: both flag a
  required input exactly when no step of lower index provides its type, so the sets are
  equal for every workflow.
\<close>

theorem diagnostics_never_disagree:
  "\<not> (\<exists>steps modules. produced_twice steps (module_map modules) \<and>
         flagged_by_dataflow steps (module_map modules) \<noteq> flagged_by_missing steps (module_map modules))"
  by (simp add: flagged_sets_agree)

text \<open>
  C7, as amended.  For every step list and module map the two checks flag the same pairs, and
  the missing-dependency diagnostics are the missing-input diagnostics of the data-flow check
  in the same order; the data-flow check reports unknown modules in addition.
\<close>

theorem diagnostics_flag_same_pairs:
  "flagged_by_dataflow steps moduleMap = flagged_by_missing steps moduleMap \<and>
   checkMissingDependencies_diag steps moduleMap =
     concat (map as_no_provider (flowErrors (validateDataFlow_diag steps moduleMap)))"
  using flagged_sets_agree diagnostics_agree by blast

lemma module_map_demo:
  "module_map demo_modules = (\<lambda>k. if k = ''quotation'' then Some quotation_module
                                   else if k = ''ecommerce-scraper'' then Some scraper_module else None)"
  by (auto simp: module_map_def demo_modules_def scraper_module_def quotation_module_def)

lemma flow_dup:
  "flowErrors (validateDataFlow_diag steps_dup (module_map demo_modules)) =
     [MissingRequiredInput 0 ''products'' ''New and Revised Quotation'']"
  "flowWarnings (validateDataFlow_diag steps_dup (module_map demo_modules)) =
     [OptionalInputUnavailable 0 ''customers'' ''New and Revised Quotation'',
      OptionalInputUnavailable 3 ''customers'' ''New and Revised Quotation'']"
  by (simp_all add: validateDataFlow_diag_def steps_dup_def plain_step_def module_map_demo
      validateDataFlow_step_def check_input_def is_required_def quotation_module_def scraper_module_def
      enumerate_eq_zip upt_rec)

lemma missing_dup:
  "checkMissingDependencies_diag steps_dup (module_map demo_modules) =
     [NoPreviousProvider 0 ''products'' ''New and Revised Quotation'']"
  by (simp add: diagnostics_agree flow_dup)

lemma produced_twice_dup: "produced_twice steps_dup (module_map demo_modules)"
  unfolding produced_twice_def
  by (rule exI[of _ "''products''"], rule exI[of _ 1], rule exI[of _ 2])
     (simp add: steps_dup_def provides_def module_map_demo plain_step_def scraper_module_def)

theorem diagnostics_flag_same_pairs_witness:
  "produced_twice steps_dup (module_map demo_modules) \<and>
   flagged_by_dataflow steps_dup (module_map demo_modules) = {(0, ''products'')} \<and>
   flagged_by_missing steps_dup (module_map demo_modules) = {(0, ''products'')}"
proof -
  have "flagged_by_dataflow steps_dup (module_map demo_modules) = {(0, ''products'')}"
    by (auto simp: flagged_by_dataflow_def flow_dup)
  then show ?thesis
    using diagnostics_flag_same_pairs[of steps_dup "module_map demo_modules"] produced_twice_dup
    by simp
qed

lemma available_before_iff:
  "t \<in> available_before steps moduleMap i
     \<longleftrightarrow> (\<exists>j. j < i \<and> j < length steps \<and> provides moduleMap (steps ! j) t)"
proof
  assume "t \<in> available_before steps moduleMap i"
  then obtain s where s: "s \<in> set (take i steps)" "provides moduleMap s t"
    by (auto simp: available_before_def)
  then obtain j where "j < length (take i steps)" "take i steps ! j = s"
    by (auto simp: in_set_conv_nth)
  then have "j < i \<and> j < length steps \<and> provides moduleMap (steps ! j) t"
    using s(2) by simp
  then show "\<exists>j. j < i \<and> j < length steps \<and> provides moduleMap (steps ! j) t" by blast
next
  assume "\<exists>j. j < i \<and> j < length steps \<and> provides moduleMap (steps ! j) t"
  then obtain j where j: "j < i" "j < length steps" "provides moduleMap (steps ! j) t" by blast
  then have "take i steps ! j \<in> set (take i steps)" by (intro nth_mem) simp
  then have "steps ! j \<in> set (take i steps)" using j by simp
  then show "t \<in> available_before steps moduleMap i"
    using j(3) by (auto simp: available_before_def)
qed

lemma enumerate_nth_mem: "i < length xs \<Longrightarrow> (i, xs ! i) \<in> set (enumerate 0 xs)"
  by (auto simp: in_set_enumerate_eq)

lemma validateWorkflow_errors:
  "errors (validateWorkflow steps modules) =
     map render (flowErrors (validateDataFlow_diag steps (module_map modules)))
       @ map render (checkMissingDependencies_diag steps (module_map modules))"
  by (simp add: validateWorkflow_def validateDataFlow_def checkMissingDependencies_def Let_def)

lemma validateWorkflow_isValid:
  "isValid (validateWorkflow steps modules) = (errors (validateWorkflow steps modules) = [])"
  by (simp add: validateWorkflow_def Let_def)

lemma unmet_required_reported:
  assumes "i < length steps" "moduleMap (moduleId (steps ! i)) = Some m"
    "input \<in> set (inputs (io m))" "is_required input"
    "dtype input \<notin> available_before steps moduleMap i"
  shows "MissingRequiredInput i (dtype input) (name m)
           \<in> set (flowErrors (validateDataFlow_diag steps moduleMap))"
proof -
  have "MissingRequiredInput i (dtype input) (name m)
          \<in> set (flow_errors_at moduleMap (available_before steps moduleMap i) (i, steps ! i))"
    using assms(2-5) by (auto simp: flow_errors_at_def unmet_required_def)
  then show ?thesis
    using enumerate_nth_mem[OF assms(1)]
    by (simp add: validateDataFlow_diag_closed) (metis fst_conv)
qed

text \<open>
  C6.  The data-flow check walks the steps in order with the set of available data types,
  empty at first and fed by the outputs of the steps of lower index only: a step with an
  unknown module gives one error and nothing else, a required input whose type is not yet
  available gives an error, an optional one gives a warning.  The workflow is valid exactly
  when there are no errors, and a step that requires a type no earlier step provides (such as
  \<open>products\<close>) gives an error message that contains the type.
\<close>

theorem validateWorkflow_data_flow:
  "flowErrors (validateDataFlow_diag steps moduleMap) =
     concat (map (\<lambda>ix. flow_errors_at moduleMap (available_before steps moduleMap (fst ix)) ix)
                 (enumerate 0 steps)) \<and>
   flowWarnings (validateDataFlow_diag steps moduleMap) =
     concat (map (\<lambda>ix. flow_warnings_at moduleMap (available_before steps moduleMap (fst ix)) ix)
                 (enumerate 0 steps)) \<and>
   available_before steps moduleMap 0 = {} \<and>
   (t \<in> available_before steps moduleMap k
      \<longleftrightarrow> (\<exists>j. j < k \<and> j < length steps \<and> provides moduleMap (steps ! j) t)) \<and>
   errors (validateWorkflow steps modules) =
     map render (flowErrors (validateDataFlow_diag steps (module_map modules)))
       @ map render (checkMissingDependencies_diag steps (module_map modules)) \<and>
   isValid (validateWorkflow steps modules) = (errors (validateWorkflow steps modules) = []) \<and>
   (i < length steps \<and> module_map modules (moduleId (steps ! i)) = Some m \<and>
    input \<in> set (inputs (io m)) \<and> is_required input \<and>
    dtype input \<notin> available_before steps (module_map modules) i
      \<longrightarrow> render (MissingRequiredInput i (dtype input) (name m))
              \<in> set (errors (validateWorkflow steps modules)) \<and>
          str_includes (render (MissingRequiredInput i (dtype input) (name m))) (dtype input))"
proof (intro conjI impI)
  show "flowErrors (validateDataFlow_diag steps moduleMap) =
     concat (map (\<lambda>ix. flow_errors_at moduleMap (available_before steps moduleMap (fst ix)) ix)
                 (enumerate 0 steps))"
    by (simp add: validateDataFlow_diag_closed)
  show "flowWarnings (validateDataFlow_diag steps moduleMap) =
     concat (map (\<lambda>ix. flow_warnings_at moduleMap (available_before steps moduleMap (fst ix)) ix)
                 (enumerate 0 steps))"
    by (simp add: validateDataFlow_diag_closed)
  show "available_before steps moduleMap 0 = {}" by (simp add: available_before_def)
  show "t \<in> available_before steps moduleMap k
      \<longleftrightarrow> (\<exists>j. j < k \<and> j < length steps \<and> provides moduleMap (steps ! j) t)"
    by (rule available_before_iff)
  show "errors (validateWorkflow steps modules) =
     map render (flowErrors (validateDataFlow_diag steps (module_map modules)))
       @ map render (checkMissingDependencies_diag steps (module_map modules))"
    by (rule validateWorkflow_errors)
  show "isValid (validateWorkflow steps modules) = (errors (validateWorkflow steps modules) = [])"
    by (rule validateWorkflow_isValid)
next
  assume a: "i < length steps \<and> module_map modules (moduleId (steps ! i)) = Some m \<and>
    input \<in> set (inputs (io m)) \<and> is_required input \<and>
    dtype input \<notin> available_before steps (module_map modules) i"
  then have "MissingRequiredInput i (dtype input) (name m)
           \<in> set (flowErrors (validateDataFlow_diag steps (module_map modules)))"
    by (intro unmet_required_reported) simp_all
  then show "render (MissingRequiredInput i (dtype input) (name m))
              \<in> set (errors (validateWorkflow steps modules))"
    by (simp add: validateWorkflow_errors del: render.simps)
  show "str_includes (render (MissingRequiredInput i (dtype input) (name m))) (dtype input)"
    by (rule render_includes_type)
qed

lemma quote_first_hyp:
  "0 < length steps_quote_first \<and>
   module_map demo_modules (moduleId (steps_quote_first ! 0)) = Some quotation_module \<and>
   products_input \<in> set (inputs (io quotation_module)) \<and> is_required products_input \<and>
   dtype products_input \<notin> available_before steps_quote_first (module_map demo_modules) 0"
  by (simp add: steps_quote_first_def plain_step_def module_map_demo quotation_module_def
        products_input_def is_required_def available_before_def)

theorem validateWorkflow_data_flow_witness:
  "0 < length steps_quote_first \<and>
   module_map demo_modules (moduleId (steps_quote_first ! 0)) = Some quotation_module \<and>
   products_input \<in> set (inputs (io quotation_module)) \<and> is_required products_input \<and>
   dtype products_input \<notin> available_before steps_quote_first (module_map demo_modules) 0 \<and>
   ''Step 1: Missing required input '' @ quote @ ''products'' @ quote @ '' for module ''
       @ quote @ ''New and Revised Quotation'' @ quote
     \<in> set (errors (validateWorkflow steps_quote_first demo_modules)) \<and>
   str_includes (''Step 1: Missing required input '' @ quote @ ''products'' @ quote @ '' for module ''
       @ quote @ ''New and Revised Quotation'' @ quote) ''products'' \<and>
   \<not> isValid (validateWorkflow steps_quote_first demo_modules)"
proof -
  note T = validateWorkflow_data_flow[where steps = steps_quote_first and modules = demo_modules
      and i = 0 and m = quotation_module and input = products_input]
  have r: "render (MissingRequiredInput 0 (dtype products_input) (name quotation_module)) =
     ''Step 1: Missing required input '' @ quote @ ''products'' @ quote @ '' for module ''
       @ quote @ ''New and Revised Quotation'' @ quote"
    by (simp add: products_input_def quotation_module_def string_of_nat_digit digit_char_def)
  have c: "render (MissingRequiredInput 0 (dtype products_input) (name quotation_module))
              \<in> set (errors (validateWorkflow steps_quote_first demo_modules)) \<and>
          str_includes (render (MissingRequiredInput 0 (dtype products_input) (name quotation_module)))
             (dtype products_input)"
    using T quote_first_hyp by blast
  have v: "isValid (validateWorkflow steps_quote_first demo_modules)
             = (errors (validateWorkflow steps_quote_first demo_modules) = [])"
    using T by blast
  have "\<not> isValid (validateWorkflow steps_quote_first demo_modules)"
    using c v by auto
  then show ?thesis using c quote_first_hyp unfolding r by (simp add: products_input_def)
qed

lemma providers_Suc:
  "i < length steps \<Longrightarrow>
   providers steps moduleMap (Suc i) t =
     providers steps moduleMap i t @ (if provides moduleMap (steps ! i) t then [i] else [])"
  by (simp add: providers_def min_def)

lemma latest_provider_Suc:
  "i < length steps \<Longrightarrow>
   latest_provider steps moduleMap (Suc i) t =
     (if provides moduleMap (steps ! i) t then Some i else latest_provider steps moduleMap i t)"
  by (simp add: latest_provider_def providers_Suc)

lemma latest_provider_0: "latest_provider steps moduleMap 0 t = None"
  by (simp add: latest_provider_def providers_def)

lemma fold_set_outputs:
  "fold (\<lambda>output a. a(dtype output \<mapsto> i)) outs A =
     (\<lambda>t. if t \<in> dtype ` set outs then Some i else A t)"
  by (induction outs arbitrary: A) (auto simp: fun_eq_iff)

lemma buildDependencyGraph_step_eq:
  assumes "i < length steps"
  shows "buildDependencyGraph_step moduleMap (i, steps ! i) (G, latest_provider steps moduleMap i) =
     (G @ graph_entry_at moduleMap (latest_provider steps moduleMap i) (i, steps ! i),
      latest_provider steps moduleMap (Suc i))"
proof (cases "moduleMap (moduleId (steps ! i))")
  case None
  then have "latest_provider steps moduleMap (Suc i) = latest_provider steps moduleMap i"
    using assms by (auto simp: latest_provider_Suc provides_def fun_eq_iff)
  then show ?thesis using None by (simp add: buildDependencyGraph_step_def graph_entry_at_def)
next
  case (Some m)
  have "latest_provider steps moduleMap (Suc i)
      = (\<lambda>t. if t \<in> dtype ` set (outputs (io m)) then Some i else latest_provider steps moduleMap i t)"
    using assms Some by (auto simp: latest_provider_Suc provides_def fun_eq_iff)
  then show ?thesis using Some
    by (simp add: buildDependencyGraph_step_def graph_entry_at_def fold_set_outputs)
qed

lemma buildDependencyGraph_fold:
  "fold (buildDependencyGraph_step moduleMap) (enumerate (length pre) rest)
     (G, latest_provider (pre @ rest) moduleMap (length pre)) =
   (G @ concat (map (\<lambda>ix. graph_entry_at moduleMap (latest_provider (pre @ rest) moduleMap (fst ix)) ix)
                    (enumerate (length pre) rest)),
    latest_provider (pre @ rest) moduleMap (length pre + length rest))"
proof (induction rest arbitrary: pre G)
  case Nil
  then show ?case by simp
next
  case (Cons s rest)
  have sp: "pre @ s # rest = (pre @ [s]) @ rest" by simp
  have st: "buildDependencyGraph_step moduleMap (length pre, s)
              (G, latest_provider (pre @ s # rest) moduleMap (length pre)) =
     (G @ graph_entry_at moduleMap (latest_provider (pre @ s # rest) moduleMap (length pre)) (length pre, s),
      latest_provider ((pre @ [s]) @ rest) moduleMap (length (pre @ [s])))"
    using buildDependencyGraph_step_eq[of "length pre" "pre @ s # rest" moduleMap G] by simp
  show ?case
    using Cons.IH[of "pre @ [s]"]
    by (simp add: st del: append_assoc) (simp add: sp del: append_assoc)
qed

lemma buildDependencyGraph_closed:
  "buildDependencyGraph steps moduleMap =
     concat (map (\<lambda>ix. graph_entry_at moduleMap (latest_provider steps moduleMap (fst ix)) ix)
                 (enumerate 0 steps))"
proof -
  have "latest_provider steps moduleMap 0 = Map.empty" by (simp add: latest_provider_0 fun_eq_iff)
  then show ?thesis
    using buildDependencyGraph_fold[of moduleMap "[]" steps "[]"]
    by (simp add: buildDependencyGraph_def)
qed

lemma providers_iff:
  "j \<in> set (providers steps moduleMap i t)
     \<longleftrightarrow> j < i \<and> j < length steps \<and> provides moduleMap (steps ! j) t"
  by (auto simp: providers_def)

lemma providers_sorted: "sorted (providers steps moduleMap i t)"
  by (simp add: providers_def sorted_wrt_filter)

lemma latest_provider_None:
  "latest_provider steps moduleMap i t = None \<longleftrightarrow> t \<notin> available_before steps moduleMap i"
proof -
  have "providers steps moduleMap i t = [] \<longleftrightarrow> t \<notin> available_before steps moduleMap i"
    using providers_iff[of _ steps moduleMap i t]
    by (simp add: available_before_iff) (metis equals0I emptyE set_empty)
  then show ?thesis by (simp add: latest_provider_def)
qed

lemma latest_provider_Some:
  "latest_provider steps moduleMap i t = Some j
     \<longleftrightarrow> j < i \<and> j < length steps \<and> provides moduleMap (steps ! j) t \<and>
         (\<forall>k. j < k \<and> k < i \<and> k < length steps \<longrightarrow> \<not> provides moduleMap (steps ! k) t)"
proof
  assume "latest_provider steps moduleMap i t = Some j"
  then have ne: "providers steps moduleMap i t \<noteq> []" and j: "j = last (providers steps moduleMap i t)"
    by (auto simp: latest_provider_def split: if_splits)
  have jm: "j \<in> set (providers steps moduleMap i t)" using ne j by simp
  have "k \<le> j" if "k \<in> set (providers steps moduleMap i t)" for k
  proof -
    obtain xs where xs: "providers steps moduleMap i t = xs @ [j]"
      using ne j by (metis append_butlast_last_id)
    have "sorted (xs @ [j])" using providers_sorted[of steps moduleMap i t] xs by simp
    then show ?thesis using that xs by (auto simp: sorted_append)
  qed
  then show "j < i \<and> j < length steps \<and> provides moduleMap (steps ! j) t \<and>
         (\<forall>k. j < k \<and> k < i \<and> k < length steps \<longrightarrow> \<not> provides moduleMap (steps ! k) t)"
    using jm by (fastforce simp: providers_iff)
next
  assume a: "j < i \<and> j < length steps \<and> provides moduleMap (steps ! j) t \<and>
         (\<forall>k. j < k \<and> k < i \<and> k < length steps \<longrightarrow> \<not> provides moduleMap (steps ! k) t)"
  then have jm: "j \<in> set (providers steps moduleMap i t)" by (simp add: providers_iff)
  then have ne: "providers steps moduleMap i t \<noteq> []" by auto
  have lm: "last (providers steps moduleMap i t) \<in> set (providers steps moduleMap i t)"
    using ne by simp
  obtain xs where xs: "providers steps moduleMap i t = xs @ [last (providers steps moduleMap i t)]"
    using ne by (metis append_butlast_last_id)
  have "sorted (xs @ [last (providers steps moduleMap i t)])"
    using providers_sorted[of steps moduleMap i t] xs by simp
  then have "j \<le> last (providers steps moduleMap i t)"
    using jm xs by (metis Un_iff empty_iff empty_set insert_iff list.simps(15) order_refl set_append sorted_append)
  moreover have "\<not> j < last (providers steps moduleMap i t)"
    using a lm by (auto simp: providers_iff)
  ultimately have "last (providers steps moduleMap i t) = j" by simp
  then show "latest_provider steps moduleMap i t = Some j" using ne by (simp add: latest_provider_def)
qed

lemma length_graph_entries:
  "length (concat (map (\<lambda>ix. graph_entry_at moduleMap (A (fst ix)) ix) ixs))
     = length (filter (\<lambda>ix. moduleMap (moduleId (snd ix)) \<noteq> None) ixs)"
  by (induction ixs) (auto simp: graph_entry_at_def split: option.splits)

lemma filter_enumerate_snd:
  "length (filter (\<lambda>ix. P (snd ix)) (enumerate n xs)) = length (filter P xs)"
  by (induction xs arbitrary: n) auto

lemma dependency_entries_single:
  "dependency_entries available [input] =
     (if is_required input \<and> available (dtype input) = None
      then [''Missing required input: '' @ dtype input]
      else (case available (dtype input) of
              Some j \<Rightarrow> [dtype input @ '' from step '' @ string_of_nat j]
            | None \<Rightarrow> []))"
  by (simp add: dependency_entries_def)

lemma dependency_entries_append:
  "dependency_entries available (xs @ ys) = dependency_entries available xs @ dependency_entries available ys"
  by (simp add: dependency_entries_def)

text \<open>
  C8, as amended.  The dependency graph has one entry per step whose module is found, in step
  order.  For each input of the module, the entry says "Missing required input: T" when T is
  required and no earlier step provides it, "T from step j" when some earlier step provides
  it, where j is the index of the latest such step, and nothing when T is optional and not
  provided.
\<close>

theorem dependencyGraph_latest_provider:
  "dependencyGraph (validateWorkflow steps modules) = buildDependencyGraph steps (module_map modules) \<and>
   buildDependencyGraph steps moduleMap =
     concat (map (\<lambda>ix. graph_entry_at moduleMap (latest_provider steps moduleMap (fst ix)) ix)
                 (enumerate 0 steps)) \<and>
   length (buildDependencyGraph steps moduleMap)
     = length (filter (\<lambda>s. moduleMap (moduleId s) \<noteq> None) steps) \<and>
   dependency_entries available (ins1 @ ins2)
     = dependency_entries available ins1 @ dependency_entries available ins2 \<and>
   dependency_entries available [input] =
     (if is_required input \<and> available (dtype input) = None
      then [''Missing required input: '' @ dtype input]
      else (case available (dtype input) of
              Some j \<Rightarrow> [dtype input @ '' from step '' @ string_of_nat j]
            | None \<Rightarrow> [])) \<and>
   (latest_provider steps moduleMap i t = None \<longleftrightarrow> t \<notin> available_before steps moduleMap i) \<and>
   (latest_provider steps moduleMap i t = Some j
     \<longleftrightarrow> j < i \<and> j < length steps \<and> provides moduleMap (steps ! j) t \<and>
         (\<forall>k. j < k \<and> k < i \<and> k < length steps \<longrightarrow> \<not> provides moduleMap (steps ! k) t))"
proof (intro conjI)
  show "dependencyGraph (validateWorkflow steps modules) = buildDependencyGraph steps (module_map modules)"
    by (simp add: validateWorkflow_def Let_def)
  show "buildDependencyGraph steps moduleMap =
     concat (map (\<lambda>ix. graph_entry_at moduleMap (latest_provider steps moduleMap (fst ix)) ix)
                 (enumerate 0 steps))"
    by (rule buildDependencyGraph_closed)
  show "length (buildDependencyGraph steps moduleMap)
     = length (filter (\<lambda>s. moduleMap (moduleId s) \<noteq> None) steps)"
    unfolding buildDependencyGraph_closed length_graph_entries
    by (rule filter_enumerate_snd)
  show "dependency_entries available (ins1 @ ins2)
     = dependency_entries available ins1 @ dependency_entries available ins2"
    by (rule dependency_entries_append)
  show "dependency_entries available [input] =
     (if is_required input \<and> available (dtype input) = None
      then [''Missing required input: '' @ dtype input]
      else (case available (dtype input) of
              Some j \<Rightarrow> [dtype input @ '' from step '' @ string_of_nat j]
            | None \<Rightarrow> []))"
    by (rule dependency_entries_single)
  show "latest_provider steps moduleMap i t = None \<longleftrightarrow> t \<notin> available_before steps moduleMap i"
    by (rule latest_provider_None)
  show "latest_provider steps moduleMap i t = Some j
     \<longleftrightarrow> j < i \<and> j < length steps \<and> provides moduleMap (steps ! j) t \<and>
         (\<forall>k. j < k \<and> k < i \<and> k < length steps \<longrightarrow> \<not> provides moduleMap (steps ! k) t)"
    by (rule latest_provider_Some)
qed

lemma graph_two_providers:
  "buildDependencyGraph steps_two_providers (module_map demo_modules) =
     [\<lparr>nodeModuleId = ''ecommerce-scraper'', level = 0, dependencies = [],
        nodeOutputs = [\<lparr>dtype = ''products'', required = Some True\<rparr>]\<rparr>,
      \<lparr>nodeModuleId = ''ecommerce-scraper'', level = 1, dependencies = [],
        nodeOutputs = [\<lparr>dtype = ''products'', required = Some True\<rparr>]\<rparr>,
      \<lparr>nodeModuleId = ''quotation'', level = 3, dependencies = [''products from step 1''],
        nodeOutputs = [\<lparr>dtype = ''quotes'', required = None\<rparr>]\<rparr>]"
  by (simp add: buildDependencyGraph_def steps_two_providers_def plain_step_def module_map_demo
      buildDependencyGraph_step_def dependency_entries_def is_required_def quotation_module_def
      scraper_module_def enumerate_eq_zip upt_rec string_of_nat_eval)

lemma providers_two:
  "providers steps_two_providers (module_map demo_modules) 3 ''products'' = [0, 1]"
  by (simp add: providers_def steps_two_providers_def plain_step_def module_map_demo provides_def
      scraper_module_def quotation_module_def upt_rec)

text \<open>
  C8, as stated, fails: with two scrapers at indices 0 and 1, an unknown module at index 2 and
  a quotation at index 3, the graph has three entries for four steps, and the quotation's
  entry names step 1 for \<open>products\<close>, not the earliest provider 0, and has one line for two
  inputs.
\<close>

theorem dependencyGraph_not_earliest:
  "dependencyGraph (validateWorkflow steps_two_providers demo_modules) ! 2 =
     \<lparr>nodeModuleId = ''quotation'', level = 3, dependencies = [''products from step 1''],
      nodeOutputs = [\<lparr>dtype = ''quotes'', required = None\<rparr>]\<rparr> \<and>
   earliest_provider steps_two_providers (module_map demo_modules) 3 ''products'' = Some 0 \<and>
   length (dependencyGraph (validateWorkflow steps_two_providers demo_modules)) = 3 \<and>
   length steps_two_providers = 4 \<and>
   length (inputs (io quotation_module)) = 2"
proof (intro conjI)
  show "dependencyGraph (validateWorkflow steps_two_providers demo_modules) ! 2 =
     \<lparr>nodeModuleId = ''quotation'', level = 3, dependencies = [''products from step 1''],
      nodeOutputs = [\<lparr>dtype = ''quotes'', required = None\<rparr>]\<rparr>"
    by (simp add: validateWorkflow_def Let_def graph_two_providers)
  show "earliest_provider steps_two_providers (module_map demo_modules) 3 ''products'' = Some 0"
    by (simp add: earliest_provider_def providers_two)
  show "length (dependencyGraph (validateWorkflow steps_two_providers demo_modules)) = 3"
    by (simp add: validateWorkflow_def Let_def graph_two_providers)
  show "length steps_two_providers = 4" by (simp add: steps_two_providers_def)
  show "length (inputs (io quotation_module)) = 2" by (simp add: quotation_module_def)
qed

theorem dependencyGraph_latest_provider_witness:
  "latest_provider steps_two_providers (module_map demo_modules) 3 ''products'' = Some 1 \<and>
   (1::nat) < 3 \<and> 1 < length steps_two_providers \<and>
   provides (module_map demo_modules) (steps_two_providers ! 1) ''products'' \<and>
   \<not> provides (module_map demo_modules) (steps_two_providers ! 2) ''products'' \<and>
   length (buildDependencyGraph steps_two_providers (module_map demo_modules)) = 3"
proof -
  note T = dependencyGraph_latest_provider[where steps = steps_two_providers
      and moduleMap = "module_map demo_modules" and i = 3 and t = "''products''" and j = 1]
  have l: "latest_provider steps_two_providers (module_map demo_modules) 3 ''products'' = Some 1"
    by (simp add: latest_provider_def providers_two)
  have f: "1 < (3::nat) \<and> 1 < length steps_two_providers \<and>
        provides (module_map demo_modules) (steps_two_providers ! 1) ''products'' \<and>
        (\<forall>k. 1 < k \<and> k < 3 \<and> k < length steps_two_providers
            \<longrightarrow> \<not> provides (module_map demo_modules) (steps_two_providers ! k) ''products'')"
    using T l by blast
  have len: "length steps_two_providers = 4" by (simp add: steps_two_providers_def)
  have "\<not> provides (module_map demo_modules) (steps_two_providers ! 2) ''products''"
    using f len by simp
  moreover note f
  moreover have "length (buildDependencyGraph steps_two_providers (module_map demo_modules))
     = length (filter (\<lambda>s. module_map demo_modules (moduleId s) \<noteq> None) steps_two_providers)"
    using T by blast
  ultimately show ?thesis using l
    by (simp add: steps_two_providers_def plain_step_def module_map_demo)
qed

lemma insert_decisions_props:
  "length fs \<le> length (fst (insert_decisions clock moduleMap i fs ch)) \<and>
   (i \<le> length fs \<longrightarrow> take i (fst (insert_decisions clock moduleMap i fs ch)) = take i fs) \<and>
   filter is_manual_input (fst (insert_decisions clock moduleMap i fs ch)) = filter is_manual_input fs \<and>
   take (length ch) (snd (insert_decisions clock moduleMap i fs ch)) = ch"
proof (induction clock moduleMap i fs ch rule: insert_decisions.induct)
  case (1 clock moduleMap i fixedSteps changes)
  let ?d = "decisionStep clock i (moduleName_of moduleMap (moduleId (fixedSteps ! i)))"
  let ?fs = "take i fixedSteps @ [?d] @ drop i fixedSteps"
  let ?ch = "changes @ [''Added \"Human Decision\" approval checkpoint before ''
                              @ moduleName_of moduleMap (moduleId (fixedSteps ! i))]"
  show ?case
  proof (cases "i < length fixedSteps")
    case False
    then show ?thesis by (subst (1 2 3 4) insert_decisions.simps) simp
  next
    case lt: True
    show ?thesis
    proof (cases "moduleId (fixedSteps ! i) \<in> set highRiskModules")
      case False
      have e: "insert_decisions clock moduleMap i fixedSteps changes
             = insert_decisions clock moduleMap (i + 1) fixedSteps changes"
        using lt False by (subst insert_decisions.simps) simp
      have "take (i + 1) (fst (insert_decisions clock moduleMap (i + 1) fixedSteps changes))
              = take (i + 1) fixedSteps"
        using "1.IH"(3)[OF lt False] lt by simp
      then have "take i (take (i + 1) (fst (insert_decisions clock moduleMap (i + 1) fixedSteps changes)))
              = take i (take (i + 1) fixedSteps)" by simp
      then have "take i (fst (insert_decisions clock moduleMap (i + 1) fixedSteps changes)) = take i fixedSteps"
        by (simp add: min_def)
      then show ?thesis using "1.IH"(3)[OF lt False] by (simp add: e)
    next
      case risk: True
      show ?thesis
      proof (cases "\<not> (i > 0 \<and> moduleId (fixedSteps ! (i - 1)) = ''human-decision'')")
        case False
        have e: "insert_decisions clock moduleMap i fixedSteps changes
             = insert_decisions clock moduleMap (i + 1) fixedSteps changes"
          using lt risk False by (subst insert_decisions.simps) simp
        have "take (i + 1) (fst (insert_decisions clock moduleMap (i + 1) fixedSteps changes))
              = take (i + 1) fixedSteps"
          using "1.IH"(2)[OF lt risk False] lt by simp
        then have "take i (take (i + 1) (fst (insert_decisions clock moduleMap (i + 1) fixedSteps changes)))
              = take i (take (i + 1) fixedSteps)" by simp
        then have "take i (fst (insert_decisions clock moduleMap (i + 1) fixedSteps changes)) = take i fixedSteps"
          by (simp add: min_def)
        then show ?thesis using "1.IH"(2)[OF lt risk False] by (simp add: e)
      next
        case True
        have e: "insert_decisions clock moduleMap i fixedSteps changes
             = insert_decisions clock moduleMap (i + 2) ?fs ?ch"
          using lt risk True by (subst insert_decisions.simps) simp
        note IH = "1.IH"(1)[OF lt risk True]
        have len: "length ?fs = length fixedSteps + 1" by simp
        have "take (i + 2) (fst (insert_decisions clock moduleMap (i + 2) ?fs ?ch)) = take (i + 2) ?fs"
          using IH lt by simp
        then have "take i (take (i + 2) (fst (insert_decisions clock moduleMap (i + 2) ?fs ?ch)))
              = take i (take (i + 2) ?fs)" by simp
        then have t: "take i (fst (insert_decisions clock moduleMap (i + 2) ?fs ?ch)) = take i fixedSteps"
          using lt by (simp add: min_def)
        have f: "filter is_manual_input ?fs = filter is_manual_input fixedSteps"
        proof -
          have "\<not> is_manual_input ?d" by (simp add: is_manual_input_def decisionStep_def)
          then have "filter is_manual_input ?fs
                = filter is_manual_input (take i fixedSteps) @ filter is_manual_input (drop i fixedSteps)"
            by simp
          also have "\<dots> = filter is_manual_input (take i fixedSteps @ drop i fixedSteps)"
            by (simp only: filter_append)
          also have "\<dots> = filter is_manual_input fixedSteps" by (simp only: append_take_drop_id)
          finally show ?thesis .
        qed
        have c: "take (length changes) (snd (insert_decisions clock moduleMap (i + 2) ?fs ?ch)) = changes"
        proof -
          have "take (length ?ch) (snd (insert_decisions clock moduleMap (i + 2) ?fs ?ch)) = ?ch"
            using IH by simp
          then have "take (length changes) (take (length ?ch) (snd (insert_decisions clock moduleMap (i + 2) ?fs ?ch)))
              = take (length changes) ?ch" by simp
          then show ?thesis by (simp add: min_def)
        qed
        have l: "length fixedSteps \<le> length (fst (insert_decisions clock moduleMap (i + 2) ?fs ?ch))"
          using IH len by linarith
        show ?thesis using IH t f c l by (simp add: e)
      qed
    qed
  qed
qed

lemma autoFix_valid:
  "isValid (validateWorkflow steps modules) \<Longrightarrow>
   autoFixWorkflowWithHumanModules clock steps modules = \<lparr>fixedSteps = steps, changes = []\<rparr>"
  by (simp add: autoFixWorkflowWithHumanModules_def Let_def)

lemma validateWorkflow_empty: "isValid (validateWorkflow [] modules)"
  by (simp add: validateWorkflow_def Let_def validateDataFlow_def validateDataFlow_diag_def
      checkMissingDependencies_def checkMissingDependencies_diag_def)

lemma insert_decisions_from_manual:
  "insert_decisions clock moduleMap 0 (manualInputStep clock # steps) ch
     = insert_decisions clock moduleMap 1 (manualInputStep clock # steps) ch"
  by (subst insert_decisions.simps) (simp add: manualInputStep_def highRiskModules_def)

lemma autoFix_invalid:
  assumes "\<not> isValid (validateWorkflow steps modules)"
  shows "autoFixWorkflowWithHumanModules clock steps modules =
     add_final_decision clock (module_map modules)
       (if \<exists>e \<in> set (errors (validateWorkflow steps modules)). data_entry_error e
        then insert_decisions clock (module_map modules) 0 (manualInputStep clock # steps) [manual_note]
        else insert_decisions clock (module_map modules) 0 steps [])"
proof -
  have "(0 < length (filter (\<lambda>e. str_includes e ''Missing required input'' \<or>
                 str_includes e ''No previous step provides'') (errors (validateWorkflow steps modules))))
        = (\<exists>e \<in> set (errors (validateWorkflow steps modules)). data_entry_error e)"
    by (auto simp: data_entry_error_def filter_empty_conv)
  then show ?thesis using assms
    by (simp add: autoFixWorkflowWithHumanModules_def Let_def manual_note_def)
qed

lemma autoFix_with_manual:
  assumes inv: "\<not> isValid (validateWorkflow steps modules)"
    and de: "\<exists>e \<in> set (errors (validateWorkflow steps modules)). data_entry_error e"
  shows "hd (fixedSteps (autoFixWorkflowWithHumanModules clock steps modules)) = manualInputStep clock"
    and "length steps < length (fixedSteps (autoFixWorkflowWithHumanModules clock steps modules))"
    and "filter is_manual_input (fixedSteps (autoFixWorkflowWithHumanModules clock steps modules))
           = manualInputStep clock # filter is_manual_input steps"
    and "hd (changes (autoFixWorkflowWithHumanModules clock steps modules)) = manual_note"
proof -
  let ?mm = "module_map modules"
  let ?R = "autoFixWorkflowWithHumanModules clock steps modules"
  let ?W = "insert_decisions clock ?mm 1 (manualInputStep clock # steps) [manual_note]"
  have flt: "filter (\<lambda>e. str_includes e ''Missing required input'' \<or>
                 str_includes e ''No previous step provides'') (errors (validateWorkflow steps modules)) \<noteq> []"
    using de by (auto simp: data_entry_error_def filter_empty_conv)
  have R: "?R = (if map_option category (?mm (moduleId (last (fst ?W)))) = Some analysis \<and>
                  moduleId (last (fst ?W)) \<noteq> ''human-decision''
               then \<lparr>fixedSteps = fst ?W @ [finalDecisionStep clock],
                     changes = snd ?W
                       @ [''Added final \"Human Decision\" to review analysis and approve next actions'']\<rparr>
               else \<lparr>fixedSteps = fst ?W, changes = snd ?W\<rparr>)"
    using de by (simp add: autoFix_invalid[OF inv] insert_decisions_from_manual add_final_decision_def Let_def)
  note P = insert_decisions_props[of "manualInputStep clock # steps" clock ?mm 1 "[manual_note]"]
  have len: "length (manualInputStep clock # steps) \<le> length (fst ?W)" using P by blast
  have tk: "take 1 (fst ?W) = [manualInputStep clock]" using P by simp
  have fl: "filter is_manual_input (fst ?W) = filter is_manual_input (manualInputStep clock # steps)"
    using P by blast
  have ch: "take 1 (snd ?W) = [manual_note]" using P by simp
  have ne: "fst ?W \<noteq> []" using len by auto
  have hdW: "hd (fst ?W) = manualInputStep clock" using tk ne by (cases "fst ?W") auto
  have hdC: "hd (snd ?W) = manual_note" using ch by (cases "snd ?W") auto
  have neC: "snd ?W \<noteq> []" using ch by auto
  have mi: "is_manual_input (manualInputStep clock)" by (simp add: is_manual_input_def manualInputStep_def)
  have nf: "\<not> is_manual_input (finalDecisionStep clock)"
    by (simp add: is_manual_input_def finalDecisionStep_def)
  show "hd (fixedSteps ?R) = manualInputStep clock" using hdW ne by (simp add: R)
  show "length steps < length (fixedSteps ?R)" using len by (simp add: R)
  show "filter is_manual_input (fixedSteps ?R) = manualInputStep clock # filter is_manual_input steps"
    using fl mi nf by (simp add: R)
  show "hd (changes ?R) = manual_note" using hdC neC by (simp add: R)
qed

lemma autoFix_without_manual:
  assumes inv: "\<not> isValid (validateWorkflow steps modules)"
    and de: "\<not> (\<exists>e \<in> set (errors (validateWorkflow steps modules)). data_entry_error e)"
  shows "filter is_manual_input (fixedSteps (autoFixWorkflowWithHumanModules clock steps modules))
           = filter is_manual_input steps"
proof -
  let ?mm = "module_map modules"
  let ?R = "autoFixWorkflowWithHumanModules clock steps modules"
  let ?W = "insert_decisions clock ?mm 0 steps []"
  have flt: "filter (\<lambda>e. str_includes e ''Missing required input'' \<or>
                 str_includes e ''No previous step provides'') (errors (validateWorkflow steps modules)) = []"
    using de by (auto simp: data_entry_error_def filter_empty_conv)
  have R: "?R = (if map_option category (?mm (moduleId (last (fst ?W)))) = Some analysis \<and>
                  moduleId (last (fst ?W)) \<noteq> ''human-decision''
               then \<lparr>fixedSteps = fst ?W @ [finalDecisionStep clock],
                     changes = snd ?W
                       @ [''Added final \"Human Decision\" to review analysis and approve next actions'']\<rparr>
               else \<lparr>fixedSteps = fst ?W, changes = snd ?W\<rparr>)"
    using de by (simp add: autoFix_invalid[OF inv] add_final_decision_def Let_def)
  have fl: "filter is_manual_input (fst ?W) = filter is_manual_input steps"
    using insert_decisions_props[of steps clock ?mm 0 "[]"] by blast
  have nf: "\<not> is_manual_input (finalDecisionStep clock)"
    by (simp add: is_manual_input_def finalDecisionStep_def)
  show ?thesis using fl nf by (simp add: R)
qed

lemma first_step_unmet:
  assumes "steps = s # rest" "module_map modules (moduleId s) = Some m"
    "input \<in> set (inputs (io m))" "is_required input"
  shows "\<not> isValid (validateWorkflow steps modules)"
    and "\<exists>e \<in> set (errors (validateWorkflow steps modules)). data_entry_error e"
proof -
  have "MissingRequiredInput 0 (dtype input) (name m)
           \<in> set (flowErrors (validateDataFlow_diag steps (module_map modules)))"
    using assms by (intro unmet_required_reported) (simp_all add: available_before_def)
  then have mem: "render (MissingRequiredInput 0 (dtype input) (name m))
          \<in> set (errors (validateWorkflow steps modules))"
    by (simp add: validateWorkflow_errors del: render.simps)
  then show "\<not> isValid (validateWorkflow steps modules)"
    by (auto simp: validateWorkflow_isValid)
  show "\<exists>e \<in> set (errors (validateWorkflow steps modules)). data_entry_error e"
    using mem render_missing_includes[of 0 "dtype input" "name m"]
    unfolding data_entry_error_def by blast
qed

text \<open>
  C9.  The repair validates first and returns a valid workflow unchanged, with no change
  note.  On an invalid workflow with an error about a missing required input or a missing
  provider, it puts one manual-input step in front, whatever the number of such errors:
  the result is longer than the input, starts with the synthetic step, and has no other new
  manual-input step.  This is the case whenever the first step's module requires an input.
\<close>

theorem autoFix_prepends_one_manual_step:
  "(isValid (validateWorkflow steps modules) \<longrightarrow>
      autoFixWorkflowWithHumanModules clock steps modules = \<lparr>fixedSteps = steps, changes = []\<rparr>) \<and>
   (\<not> isValid (validateWorkflow steps modules) \<and>
    (\<exists>e \<in> set (errors (validateWorkflow steps modules)). data_entry_error e) \<longrightarrow>
      hd (fixedSteps (autoFixWorkflowWithHumanModules clock steps modules)) = manualInputStep clock \<and>
      length steps < length (fixedSteps (autoFixWorkflowWithHumanModules clock steps modules)) \<and>
      filter is_manual_input (fixedSteps (autoFixWorkflowWithHumanModules clock steps modules))
        = manualInputStep clock # filter is_manual_input steps \<and>
      hd (changes (autoFixWorkflowWithHumanModules clock steps modules)) = manual_note) \<and>
   (\<not> isValid (validateWorkflow steps modules) \<and>
    \<not> (\<exists>e \<in> set (errors (validateWorkflow steps modules)). data_entry_error e) \<longrightarrow>
      filter is_manual_input (fixedSteps (autoFixWorkflowWithHumanModules clock steps modules))
        = filter is_manual_input steps) \<and>
   (steps = s # rest \<and> module_map modules (moduleId s) = Some m \<and>
    input \<in> set (inputs (io m)) \<and> is_required input \<longrightarrow>
      length steps < length (fixedSteps (autoFixWorkflowWithHumanModules clock steps modules)) \<and>
      hd (fixedSteps (autoFixWorkflowWithHumanModules clock steps modules)) = manualInputStep clock)"
proof (intro conjI impI; (elim conjE)?)
  show "autoFixWorkflowWithHumanModules clock steps modules = \<lparr>fixedSteps = steps, changes = []\<rparr>"
    if "isValid (validateWorkflow steps modules)"
    using that by (rule autoFix_valid)
  show "filter is_manual_input (fixedSteps (autoFixWorkflowWithHumanModules clock steps modules))
        = filter is_manual_input steps"
    if "\<not> isValid (validateWorkflow steps modules)"
      "\<not> (\<exists>e \<in> set (errors (validateWorkflow steps modules)). data_entry_error e)"
    using that by (rule autoFix_without_manual)
next
  assume a: "\<not> isValid (validateWorkflow steps modules)"
    "\<exists>e \<in> set (errors (validateWorkflow steps modules)). data_entry_error e"
  show "hd (fixedSteps (autoFixWorkflowWithHumanModules clock steps modules)) = manualInputStep clock"
    "length steps < length (fixedSteps (autoFixWorkflowWithHumanModules clock steps modules))"
    "filter is_manual_input (fixedSteps (autoFixWorkflowWithHumanModules clock steps modules))
        = manualInputStep clock # filter is_manual_input steps"
    "hd (changes (autoFixWorkflowWithHumanModules clock steps modules)) = manual_note"
    using autoFix_with_manual[OF a] by simp_all
next
  assume a: "steps = s # rest" "module_map modules (moduleId s) = Some m"
    "input \<in> set (inputs (io m))" "is_required input"
  note b = first_step_unmet[OF a]
  show "length steps < length (fixedSteps (autoFixWorkflowWithHumanModules clock steps modules))"
    "hd (fixedSteps (autoFixWorkflowWithHumanModules clock steps modules)) = manualInputStep clock"
    using autoFix_with_manual[OF b] by simp_all
qed

lemma flow_valid:
  "flowErrors (validateDataFlow_diag steps_valid (module_map demo_modules)) = []"
  by (simp add: validateDataFlow_diag_def steps_valid_def plain_step_def module_map_demo
      validateDataFlow_step_def check_input_def is_required_def quotation_module_def scraper_module_def
      enumerate_eq_zip upt_rec)

lemma valid_example: "isValid (validateWorkflow steps_valid demo_modules)"
  by (simp add: validateWorkflow_isValid validateWorkflow_errors diagnostics_agree flow_valid)

lemma flow_unknown:
  "flowErrors (validateDataFlow_diag steps_unknown (module_map demo_modules)) = [ModuleNotFound 0 ''unknown'']"
  by (simp add: validateDataFlow_diag_def steps_unknown_def plain_step_def module_map_demo
      validateDataFlow_step_def enumerate_eq_zip upt_rec)

lemma errors_unknown:
  "errors (validateWorkflow steps_unknown demo_modules) = [''Step 1: Module '' @ quote @ ''unknown'' @ quote @ '' not found'']"
  by (simp add: validateWorkflow_errors diagnostics_agree flow_unknown string_of_nat_eval)

lemma unknown_example:
  "\<not> isValid (validateWorkflow steps_unknown demo_modules) \<and>
   \<not> (\<exists>e \<in> set (errors (validateWorkflow steps_unknown demo_modules)). data_entry_error e)"
  by (simp add: validateWorkflow_isValid errors_unknown data_entry_error_def quote_def)

lemma quote_first_example:
  "steps_quote_first = plain_step ''q1'' ''quotation'' [] # [plain_step ''s1'' ''ecommerce-scraper'' []] \<and>
   module_map demo_modules (moduleId (plain_step ''q1'' ''quotation'' [])) = Some quotation_module \<and>
   products_input \<in> set (inputs (io quotation_module)) \<and> is_required products_input"
  by (simp add: steps_quote_first_def plain_step_def module_map_demo quotation_module_def
        products_input_def is_required_def)

theorem autoFix_prepends_one_manual_step_witness:
  "isValid (validateWorkflow steps_valid demo_modules) \<and>
   autoFixWorkflowWithHumanModules clock0 steps_valid demo_modules
     = \<lparr>fixedSteps = steps_valid, changes = []\<rparr> \<and>
   \<not> isValid (validateWorkflow steps_unknown demo_modules) \<and>
   filter is_manual_input (fixedSteps (autoFixWorkflowWithHumanModules clock0 steps_unknown demo_modules)) = [] \<and>
   length steps_quote_first
     < length (fixedSteps (autoFixWorkflowWithHumanModules clock0 steps_quote_first demo_modules)) \<and>
   hd (fixedSteps (autoFixWorkflowWithHumanModules clock0 steps_quote_first demo_modules))
     = manualInputStep clock0"
proof -
  have 1: "autoFixWorkflowWithHumanModules clock0 steps_valid demo_modules
     = \<lparr>fixedSteps = steps_valid, changes = []\<rparr>"
    using autoFix_prepends_one_manual_step[where steps = steps_valid and modules = demo_modules
        and clock = clock0] valid_example by blast
  have 2: "filter is_manual_input (fixedSteps (autoFixWorkflowWithHumanModules clock0 steps_unknown demo_modules))
     = filter is_manual_input steps_unknown"
    using autoFix_prepends_one_manual_step[where steps = steps_unknown and modules = demo_modules
        and clock = clock0] unknown_example by blast
  have 3: "length steps_quote_first
     < length (fixedSteps (autoFixWorkflowWithHumanModules clock0 steps_quote_first demo_modules)) \<and>
   hd (fixedSteps (autoFixWorkflowWithHumanModules clock0 steps_quote_first demo_modules))
     = manualInputStep clock0"
    using autoFix_prepends_one_manual_step[where steps = steps_quote_first and modules = demo_modules
        and clock = clock0 and s = "plain_step ''q1'' ''quotation'' []"
        and rest = "[plain_step ''s1'' ''ecommerce-scraper'' []]" and m = quotation_module
        and input = products_input] quote_first_example by blast
  have "filter is_manual_input steps_unknown = []"
    by (simp add: steps_unknown_def is_manual_input_def plain_step_def)
  then show ?thesis using 1 2 3 valid_example unknown_example by simp
qed

lemma insert_decisions_done:
  "\<not> i < length fs \<Longrightarrow>
   insert_decisions clock moduleMap i fs ch = (fs, ch)"
  by (subst insert_decisions.simps) simp

lemma insert_decisions_skip:
  "i < length fs \<Longrightarrow> moduleId (fs ! i) \<notin> set highRiskModules \<Longrightarrow>
   insert_decisions clock moduleMap i fs ch
     = insert_decisions clock moduleMap (i + 1) fs ch"
  by (subst insert_decisions.simps) simp

lemma insert_decisions_approved:
  "i < length fs \<Longrightarrow> moduleId (fs ! i) \<in> set highRiskModules \<Longrightarrow>
   i > 0 \<and> moduleId (fs ! (i - 1)) = ''human-decision'' \<Longrightarrow>
   insert_decisions clock moduleMap i fs ch
     = insert_decisions clock moduleMap (i + 1) fs ch"
  by (subst insert_decisions.simps) simp

lemma insert_decisions_splice:
  "i < length fs \<Longrightarrow> moduleId (fs ! i) \<in> set highRiskModules \<Longrightarrow>
   \<not> (i > 0 \<and> moduleId (fs ! (i - 1)) = ''human-decision'') \<Longrightarrow>
   insert_decisions clock moduleMap i fs ch
     = insert_decisions clock moduleMap (i + 2)
         (take i fs
            @ [decisionStep clock i (moduleName_of moduleMap (moduleId (fs ! i)))]
            @ drop i fs)
         (ch @ [''Added \"Human Decision\" approval checkpoint before ''
                       @ moduleName_of moduleMap (moduleId (fs ! i))])"
  by (subst insert_decisions.simps) simp

lemma autoFix_quote_first:
  "autoFixWorkflowWithHumanModules clock0 steps_quote_first demo_modules =
     \<lparr>fixedSteps = [manualInputStep clock0,
                    decisionStep clock0 1 ''New and Revised Quotation'',
                    plain_step ''q1'' ''quotation'' [],
                    plain_step ''s1'' ''ecommerce-scraper'' []],
      changes = [manual_note,
                 ''Added \"Human Decision\" approval checkpoint before New and Revised Quotation'']\<rparr>"
proof -
  have inv: "\<not> isValid (validateWorkflow steps_quote_first demo_modules)"
    and de: "\<exists>e \<in> set (errors (validateWorkflow steps_quote_first demo_modules)). data_entry_error e"
    using first_step_unmet[of steps_quote_first _ _ demo_modules quotation_module products_input]
      quote_first_example by blast+
  have ins: "insert_decisions clock0 (module_map demo_modules) 0
               (manualInputStep clock0 # steps_quote_first) [manual_note]
        = ([manualInputStep clock0, decisionStep clock0 1 ''New and Revised Quotation'',
            plain_step ''q1'' ''quotation'' [], plain_step ''s1'' ''ecommerce-scraper'' []],
           [manual_note, ''Added \"Human Decision\" approval checkpoint before New and Revised Quotation''])"
    by (simp add: insert_decisions_done insert_decisions_skip insert_decisions_approved
        insert_decisions_splice steps_quote_first_def plain_step_def manualInputStep_def
        highRiskModules_def moduleName_of_def module_map_demo quotation_module_def decisionStep_def)
  have fin: "add_final_decision clock0 (module_map demo_modules)
        (insert_decisions clock0 (module_map demo_modules) 0
               (manualInputStep clock0 # steps_quote_first) [manual_note]) =
     \<lparr>fixedSteps = [manualInputStep clock0,
                    decisionStep clock0 1 ''New and Revised Quotation'',
                    plain_step ''q1'' ''quotation'' [],
                    plain_step ''s1'' ''ecommerce-scraper'' []],
      changes = [manual_note,
                 ''Added \"Human Decision\" approval checkpoint before New and Revised Quotation'']\<rparr>"
    unfolding ins
    by (simp add: add_final_decision_def Let_def plain_step_def module_map_demo scraper_module_def)
  show ?thesis
    unfolding autoFix_invalid[OF inv] by (simp only: de if_True fin)
qed

section \<open>The static parallelism analysis\<close>

subsection \<open>One round of the loop\<close>

lemma snd_fold_remove:
  "snd (fold (remove_from_level steps) lv (d, r)) = filter (\<lambda>x. x \<notin> set lv) r"
  by (induction lv arbitrary: d r)
     (auto simp: remove_from_level_def removeAll_filter_not_eq intro!: filter_cong)

lemma analyze_loop_empty: "analyze_loop steps d [] L = L"
  by (subst analyze_loop.simps) simp

lemma analyze_loop_stuck:
  "remaining \<noteq> [] \<Longrightarrow> zero_level d remaining = [] \<Longrightarrow> analyze_loop steps d remaining L = L"
  by (subst analyze_loop.simps) simp

lemma analyze_loop_level:
  "remaining \<noteq> [] \<Longrightarrow> zero_level d remaining \<noteq> [] \<Longrightarrow>
   analyze_loop steps d remaining L =
     analyze_loop steps (fst (fold (remove_from_level steps) (zero_level d remaining) (d, remaining)))
       (filter (\<lambda>x. x \<notin> set (zero_level d remaining)) remaining)
       (L @ [zero_level d remaining])"
  by (subst analyze_loop.simps) (simp add: snd_fold_remove)

lemma new_Set_distinct_aux:
  "distinct xs \<Longrightarrow> set xs \<inter> set acc = {} \<Longrightarrow> fold set_add xs acc = acc @ xs"
  by (induction xs arbitrary: acc) (auto simp: set_add_def)

lemma new_Set_distinct: "distinct xs \<Longrightarrow> new_Set xs = xs"
  using new_Set_distinct_aux[of xs "[]"] by (simp add: new_Set_def)

lemma fold_inDegree_other:
  "k \<notin> instanceId ` set xs \<Longrightarrow>
   fold (\<lambda>s d. d(instanceId s \<mapsto> int (length (deps_of s)))) xs d1 k = d1 k"
  by (induction xs arbitrary: d1) auto

lemma initial_inDegree_aux:
  "distinct (map instanceId steps) \<Longrightarrow> s \<in> set steps \<Longrightarrow>
   fold (\<lambda>s d. d(instanceId s \<mapsto> int (length (deps_of s)))) steps d0 (instanceId s)
     = Some (int (length (deps_of s)))"
proof (induction steps arbitrary: d0)
  case Nil
  then show ?case by simp
next
  case (Cons a steps)
  show ?case
  proof (cases "s \<in> set steps")
    case True
    then show ?thesis using Cons by simp
  next
    case False
    then have sa: "s = a" using Cons.prems by simp
    have "instanceId a \<notin> instanceId ` set steps" using Cons.prems(1) by simp
    then have "fold (\<lambda>s d. d(instanceId s \<mapsto> int (length (deps_of s)))) steps
                 (d0(instanceId a \<mapsto> int (length (deps_of a)))) (instanceId a)
               = (d0(instanceId a \<mapsto> int (length (deps_of a)))) (instanceId a)"
      by (rule fold_inDegree_other)
    then show ?thesis unfolding sa by (simp only: fold_simps comp_apply fun_upd_same)
  qed
qed

lemma initial_inDegree_distinct:
  "distinct (map instanceId steps) \<Longrightarrow> s \<in> set steps \<Longrightarrow>
   initial_inDegree steps (instanceId s) = Some (int (length (deps_of s)))"
  by (simp add: initial_inDegree_def initial_inDegree_aux)

lemma decrease_other:
  "(\<forall>s \<in> set steps. instanceId s = k \<longrightarrow> \<not> (x \<in> set (deps_of s) \<and> k \<in> set rem)) \<Longrightarrow>
   decrease_dependents steps x rem d k = d k"
  unfolding decrease_dependents_def
  by (induction steps arbitrary: d) auto

lemma decrease_hit:
  "distinct (map instanceId steps) \<Longrightarrow> s \<in> set steps \<Longrightarrow> x \<in> set (deps_of s) \<Longrightarrow>
   instanceId s \<in> set rem \<Longrightarrow>
   decrease_dependents steps x rem d (instanceId s) = Some (decremented (d (instanceId s)))"
proof (induction steps arbitrary: d)
  case Nil
  then show ?case by simp
next
  case (Cons a steps)
  let ?f = "\<lambda>s d. if x \<in> set (deps_of s) \<and> instanceId s \<in> set rem
                  then d(instanceId s \<mapsto> decremented (d (instanceId s))) else d"
  have unf: "decrease_dependents (a # steps) x rem d = decrease_dependents steps x rem (?f a d)"
    by (simp add: decrease_dependents_def)
  show ?case
  proof (cases "s \<in> set steps")
    case True
    have "instanceId a \<notin> instanceId ` set steps" using Cons.prems(1) by simp
    with True have ne: "instanceId a \<noteq> instanceId s" by (metis imageI)
    have "decrease_dependents steps x rem (?f a d) (instanceId s)
            = Some (decremented ((?f a d) (instanceId s)))"
      using Cons.IH[of "?f a d"] Cons.prems True by simp
    then show ?thesis using ne by (simp add: unf)
  next
    case False
    then have sa: "s = a" using Cons.prems by simp
    have "instanceId a \<notin> instanceId ` set steps" using Cons.prems(1) by simp
    then have "\<forall>t \<in> set steps. instanceId t \<noteq> instanceId a" by (metis imageI)
    then have "decrease_dependents steps x rem (?f a d) (instanceId a) = (?f a d) (instanceId a)"
      by (intro decrease_other) auto
    then show ?thesis using sa Cons.prems by (simp add: unf)
  qed
qed

subsection \<open>Chains and independent steps\<close>




lemma is_chain_head: "is_chain None (s # rest) \<Longrightarrow> deps_of s = []"
  by simp







subsection \<open>The report\<close>

lemma levels_analyze:
  "levels (analyzeParallelism steps)
     = analyze_loop steps (initial_inDegree steps) (new_Set (map instanceId steps)) []"
  by (simp add: analyzeParallelism_def Let_def)








lemmas steps_eval = plain_step_def deps_of_def pure_chain_def fully_independent_def

subsection \<open>Levels respect the dependencies\<close>

text \<open>
  With distinct instance ids, a step is put in a level only after all its dependencies were
  put in earlier levels.
\<close>

lemma same_id_same_step:
  "distinct (map instanceId steps) \<Longrightarrow> s \<in> set steps \<Longrightarrow> w \<in> set steps \<Longrightarrow>
   instanceId w = instanceId s \<Longrightarrow> w = s"
  by (meson distinct_map inj_onD)

lemma counts_remove:
  assumes d: "distinct (map instanceId steps)" and c: "counts steps inDeg rem R" and x: "x \<notin> R"
  shows "counts steps (decrease_dependents steps x (removeAll x rem) inDeg) (removeAll x rem) (insert x R)"
  unfolding counts_def
proof (intro ballI impI)
  fix s assume s: "s \<in> set steps" and r: "instanceId s \<in> set (removeAll x rem)"
  then have "instanceId s \<in> set rem" by simp
  then obtain n where n: "inDeg (instanceId s) = Some n"
      and le: "int (card (set (deps_of s) - R)) \<le> n"
    using c s unfolding counts_def by blast
  let ?d = "decrease_dependents steps x (removeAll x rem) inDeg"
  show "\<exists>m. ?d (instanceId s) = Some m \<and> int (card (set (deps_of s) - insert x R)) \<le> m"
  proof (cases "x \<in> set (deps_of s)")
    case True
    have "?d (instanceId s) = Some (decremented (inDeg (instanceId s)))"
      using d s True r by (rule decrease_hit)
    moreover have "x \<in> set (deps_of s) - R" using True x by simp
    then have "card (set (deps_of s) - insert x R) = card (set (deps_of s) - R) - 1
               \<and> 0 < card (set (deps_of s) - R)"
      by (metis Diff_insert card_Diff_singleton card_gt_0_iff empty_iff finite_Diff finite_set)
    ultimately show ?thesis using n le by (auto simp: decremented_def)
  next
    case False
    have "\<forall>w \<in> set steps. instanceId w = instanceId s \<longrightarrow>
            \<not> (x \<in> set (deps_of w) \<and> instanceId s \<in> set (removeAll x rem))"
      using same_id_same_step[OF d s] False by blast
    then have "?d (instanceId s) = inDeg (instanceId s)" by (rule decrease_other)
    moreover have "set (deps_of s) - insert x R = set (deps_of s) - R" using False by auto
    ultimately show ?thesis using n le by simp
  qed
qed

lemma remove_from_level_pair:
  "remove_from_level steps x (d, rem)
     = (decrease_dependents steps x (removeAll x rem) d, removeAll x rem)"
  by (simp add: remove_from_level_def)

lemma counts_fold:
  assumes d: "distinct (map instanceId steps)"
  shows "counts steps inDeg rem R \<Longrightarrow> distinct lv \<Longrightarrow> set lv \<inter> R = {} \<Longrightarrow>
         counts steps (fst (fold (remove_from_level steps) lv (inDeg, rem)))
           (filter (\<lambda>x. x \<notin> set lv) rem) (R \<union> set lv)"
proof (induction lv arbitrary: inDeg rem R)
  case Nil
  then show ?case by simp
next
  case (Cons x lv)
  have x: "x \<notin> R" using Cons.prems(3) by simp
  let ?d = "decrease_dependents steps x (removeAll x rem) inDeg"
  have c: "counts steps ?d (removeAll x rem) (insert x R)"
    using d Cons.prems(1) x by (rule counts_remove)
  have "counts steps (fst (fold (remove_from_level steps) lv (?d, removeAll x rem)))
          (filter (\<lambda>y. y \<notin> set lv) (removeAll x rem)) (insert x R \<union> set lv)"
    using c
  proof (rule Cons.IH)
    show "distinct lv" using Cons.prems(2) by simp
    show "set lv \<inter> insert x R = {}" using Cons.prems(2,3) by auto
  qed
  moreover have "filter (\<lambda>y. y \<notin> set lv) (removeAll x rem) = filter (\<lambda>y. y \<notin> set (x # lv)) rem"
    by (auto simp: removeAll_filter_not_eq intro!: filter_cong)
  moreover have "insert x R \<union> set lv = R \<union> set (x # lv)" by auto
  ultimately show ?case by (simp add: remove_from_level_pair)
qed

lemma sound_levels_loop:
  "distinct (map instanceId steps) \<Longrightarrow> distinct rem \<Longrightarrow>
   set rem \<inter> set (concat L) = {} \<Longrightarrow>
   counts steps inDeg rem (set (concat L)) \<Longrightarrow> sound_levels steps L \<Longrightarrow>
   sound_levels steps (analyze_loop steps inDeg rem L)"
proof (induction steps inDeg rem L rule: analyze_loop.induct)
  case (1 steps inDegree remaining levels)
  note d = "1.prems"(1)
  show ?case
  proof (cases "remaining = []")
    case True
    then show ?thesis using 1 by (simp add: analyze_loop_empty)
  next
    case ne: False
    show ?thesis
    proof (cases "zero_level inDegree remaining = []")
      case True
      then show ?thesis using 1 ne by (simp add: analyze_loop_stuck)
    next
      case z: False
      let ?lv = "zero_level inDegree remaining"
      let ?d = "fst (fold (remove_from_level steps) ?lv (inDegree, remaining))"
      let ?rem = "filter (\<lambda>x. x \<notin> set ?lv) remaining"
      have lv_sub: "set ?lv \<subseteq> set remaining" by (auto simp: zero_level_def)
      have lv_dist: "distinct ?lv" using "1.prems"(2) by (simp add: zero_level_def)
      have lv_R: "set ?lv \<inter> set (concat levels) = {}" using lv_sub "1.prems"(3) by blast
      have c: "counts steps ?d ?rem (set (concat levels) \<union> set ?lv)"
        using d "1.prems"(4) lv_dist lv_R by (rule counts_fold)
      have snd_lv: "sound_levels steps (levels @ [?lv])"
        unfolding sound_levels_def
      proof (intro allI impI ballI)
        fix k s
        assume k: "k < length (levels @ [?lv])" and s: "s \<in> set steps"
          and m: "instanceId s \<in> set ((levels @ [?lv]) ! k)"
        show "set (deps_of s) \<subseteq> set (concat (take k (levels @ [?lv])))"
        proof (cases "k < length levels")
          case True
          then show ?thesis
            using "1.prems"(5) s m by (simp add: sound_levels_def nth_append)
        next
          case False
          then have kl: "k = length levels" using k by simp
          then have in_lv: "instanceId s \<in> set ?lv" using m by simp
          then have zero: "inDegree (instanceId s) = Some 0" by (simp add: zero_level_def)
          have "instanceId s \<in> set remaining" using in_lv lv_sub by blast
          then obtain n where "inDegree (instanceId s) = Some n"
            and "int (card (set (deps_of s) - set (concat levels))) \<le> n"
            using "1.prems"(4) s unfolding counts_def by blast
          then have "card (set (deps_of s) - set (concat levels)) = 0" using zero by simp
          then have "set (deps_of s) - set (concat levels) = {}" by simp
          then show ?thesis using kl by auto
        qed
      qed
      have "sound_levels steps (analyze_loop steps ?d
              (snd (fold (remove_from_level steps) ?lv (inDegree, remaining))) (levels @ [?lv]))"
      proof (rule "1.IH")
        show "0 < length remaining" using ne by simp
        show "length ?lv \<noteq> 0" using z by simp
        show "distinct (map instanceId steps)" by (rule d)
        show "distinct (snd (fold (remove_from_level steps) ?lv (inDegree, remaining)))"
          using "1.prems"(2) by (simp add: snd_fold_remove)
        show "set (snd (fold (remove_from_level steps) ?lv (inDegree, remaining)))
                \<inter> set (concat (levels @ [?lv])) = {}"
          using "1.prems"(3) by (auto simp: snd_fold_remove)
        show "counts steps ?d (snd (fold (remove_from_level steps) ?lv (inDegree, remaining)))
                (set (concat (levels @ [?lv])))"
          using c by (simp add: snd_fold_remove)
        show "sound_levels steps (levels @ [?lv])" by (rule snd_lv)
      qed
      then show ?thesis using ne z by (simp add: analyze_loop_level snd_fold_remove)
    qed
  qed
qed

lemma counts_initial:
  assumes d: "distinct (map instanceId steps)"
  shows "counts steps (initial_inDegree steps) rem {}"
  unfolding counts_def
proof (intro ballI impI)
  fix s assume "s \<in> set steps"
  then have "initial_inDegree steps (instanceId s) = Some (int (length (deps_of s)))"
    using d by (simp add: initial_inDegree_distinct)
  moreover have "card (set (deps_of s)) \<le> length (deps_of s)" by (rule card_length)
  ultimately show "\<exists>n. initial_inDegree steps (instanceId s) = Some n \<and>
                       int (card (set (deps_of s) - {})) \<le> n" by simp
qed

lemma levels_respect_dependencies:
  assumes d: "distinct (map instanceId steps)"
    and k: "k < length (levels (analyzeParallelism steps))"
    and s: "s \<in> set steps"
    and m: "instanceId s \<in> set (levels (analyzeParallelism steps) ! k)"
  shows "set (deps_of s) \<subseteq> set (concat (take k (levels (analyzeParallelism steps))))"
proof -
  have "sound_levels steps (analyze_loop steps (initial_inDegree steps) (map instanceId steps) [])"
    using d
  proof (rule sound_levels_loop)
    show "distinct (map instanceId steps)" by (rule d)
    show "set (map instanceId steps) \<inter> set (concat []) = {}" by simp
    show "counts steps (initial_inDegree steps) (map instanceId steps) (set (concat []))"
      using counts_initial[OF d] by simp
    show "sound_levels steps []" by (simp add: sound_levels_def)
  qed
  then have "sound_levels steps (levels (analyzeParallelism steps))"
    using d by (simp add: levels_analyze new_Set_distinct)
  then show ?thesis using k s m unfolding sound_levels_def by blast
qed

subsection \<open>Every step of an acyclic workflow is placed\<close>

text \<open>
  With distinct instance ids, dependencies that name steps and are listed once, and no cycle,
  the loop never stops early: the levels hold every step.
\<close>

lemma decremented_pos: "0 < c \<Longrightarrow> decremented (Some (int c)) = int (c - 1)"
  by (cases c) (simp_all add: decremented_def)

lemma exact_counts_remove:
  assumes d: "distinct (map instanceId steps)" and c: "exact_counts steps inDeg rem R" and x: "x \<notin> R"
  shows "exact_counts steps (decrease_dependents steps x (removeAll x rem) inDeg)
           (removeAll x rem) (insert x R)"
  unfolding exact_counts_def
proof (intro ballI impI)
  fix s assume s: "s \<in> set steps" and r: "instanceId s \<in> set (removeAll x rem)"
  then have "instanceId s \<in> set rem" by simp
  then have n: "inDeg (instanceId s) = Some (int (card (set (deps_of s) - R)))"
    using c s unfolding exact_counts_def by blast
  let ?d = "decrease_dependents steps x (removeAll x rem) inDeg"
  show "?d (instanceId s) = Some (int (card (set (deps_of s) - insert x R)))"
  proof (cases "x \<in> set (deps_of s)")
    case True
    have hit: "?d (instanceId s) = Some (decremented (inDeg (instanceId s)))"
      using d s True r by (rule decrease_hit)
    have "x \<in> set (deps_of s) - R" using True x by simp
    then have ce: "card (set (deps_of s) - insert x R) = card (set (deps_of s) - R) - 1"
      and pos: "0 < card (set (deps_of s) - R)"
      by (metis Diff_insert card_Diff_singleton, metis card_gt_0_iff empty_iff finite_Diff finite_set)
    have "decremented (Some (int (card (set (deps_of s) - R))))
            = int (card (set (deps_of s) - R) - 1)"
      using pos by (rule decremented_pos)
    then have "decremented (inDeg (instanceId s)) = int (card (set (deps_of s) - insert x R))"
      by (simp only: ce n)
    then show ?thesis using hit by simp
  next
    case False
    have "\<forall>w \<in> set steps. instanceId w = instanceId s \<longrightarrow>
            \<not> (x \<in> set (deps_of w) \<and> instanceId s \<in> set (removeAll x rem))"
      using same_id_same_step[OF d s] False by blast
    then have "?d (instanceId s) = inDeg (instanceId s)" by (rule decrease_other)
    moreover have "set (deps_of s) - insert x R = set (deps_of s) - R" using False by auto
    ultimately show ?thesis using n by simp
  qed
qed

lemma exact_counts_fold:
  assumes d: "distinct (map instanceId steps)"
  shows "exact_counts steps inDeg rem R \<Longrightarrow> distinct lv \<Longrightarrow> set lv \<inter> R = {} \<Longrightarrow>
         exact_counts steps (fst (fold (remove_from_level steps) lv (inDeg, rem)))
           (filter (\<lambda>x. x \<notin> set lv) rem) (R \<union> set lv)"
proof (induction lv arbitrary: inDeg rem R)
  case Nil
  then show ?case by simp
next
  case (Cons x lv)
  have x: "x \<notin> R" using Cons.prems(3) by simp
  let ?d = "decrease_dependents steps x (removeAll x rem) inDeg"
  have c: "exact_counts steps ?d (removeAll x rem) (insert x R)"
    using d Cons.prems(1) x by (rule exact_counts_remove)
  have "exact_counts steps (fst (fold (remove_from_level steps) lv (?d, removeAll x rem)))
          (filter (\<lambda>y. y \<notin> set lv) (removeAll x rem)) (insert x R \<union> set lv)"
    using c
  proof (rule Cons.IH)
    show "distinct lv" using Cons.prems(2) by simp
    show "set lv \<inter> insert x R = {}" using Cons.prems(2,3) by auto
  qed
  moreover have "filter (\<lambda>y. y \<notin> set lv) (removeAll x rem) = filter (\<lambda>y. y \<notin> set (x # lv)) rem"
    by (auto simp: removeAll_filter_not_eq intro!: filter_cong)
  moreover have "insert x R \<union> set lv = R \<union> set (x # lv)" by auto
  ultimately show ?case by (simp add: remove_from_level_pair)
qed

lemma exact_counts_initial:
  assumes d: "distinct (map instanceId steps)" and dd: "\<forall>s \<in> set steps. distinct (deps_of s)"
  shows "exact_counts steps (initial_inDegree steps) rem {}"
  unfolding exact_counts_def
proof (intro ballI impI)
  fix s assume s: "s \<in> set steps"
  then have "initial_inDegree steps (instanceId s) = Some (int (length (deps_of s)))"
    using d by (simp add: initial_inDegree_distinct)
  moreover have "card (set (deps_of s)) = length (deps_of s)"
    using dd s by (simp add: distinct_card)
  ultimately show "initial_inDegree steps (instanceId s)
                     = Some (int (card (set (deps_of s) - {})))" by simp
qed

lemma some_remaining_is_free:
  assumes ac: "\<not> has_cycle steps" and wf: "well_formed steps"
    and ne: "rem \<noteq> []" and sub: "set rem \<subseteq> instanceId ` set steps"
    and all: "instanceId ` set steps \<subseteq> set rem \<union> R"
  shows "\<exists>s \<in> set steps. instanceId s \<in> set rem \<and> set (deps_of s) \<subseteq> R"
proof -
  obtain p where p: "p \<in> set rem" using ne by (cases rem) auto
  have "wf ((dep_rel steps)\<inverse>)"
    using ac finite_dep_rel by (intro finite_acyclic_wf_converse) (auto simp: has_cycle_def)
  from wfE_min[OF this p]
  obtain z where z: "z \<in> set rem" "\<And>y. (y, z) \<in> (dep_rel steps)\<inverse> \<Longrightarrow> y \<notin> set rem" by metis
  obtain s where s: "s \<in> set steps" "instanceId s = z" using z(1) sub by auto
  have "q \<in> R" if q: "q \<in> set (deps_of s)" for q
  proof -
    have "(z, q) \<in> dep_rel steps" using s q by (auto simp: dep_rel_def)
    then have "q \<notin> set rem" using z(2) by blast
    moreover have "q \<in> instanceId ` set steps" using wf s(1) q by (auto simp: well_formed_def)
    ultimately show ?thesis using all by blast
  qed
  then show ?thesis using s z(1) by blast
qed

lemma complete_levels_loop:
  "\<not> has_cycle steps \<Longrightarrow> well_formed steps \<Longrightarrow> distinct rem \<Longrightarrow>
   set rem \<inter> set (concat L) = {} \<Longrightarrow>
   set rem \<union> set (concat L) = instanceId ` set steps \<Longrightarrow>
   exact_counts steps inDeg rem (set (concat L)) \<Longrightarrow>
   set (concat (analyze_loop steps inDeg rem L)) = instanceId ` set steps"
proof (induction steps inDeg rem L rule: analyze_loop.induct)
  case (1 steps inDegree remaining levels)
  note ac = "1.prems"(1) and wf = "1.prems"(2)
  have d: "distinct (map instanceId steps)" using wf by (simp add: well_formed_def)
  show ?case
  proof (cases "remaining = []")
    case True
    then show ?thesis using "1.prems"(5) by (simp add: analyze_loop_empty)
  next
    case ne: False
    let ?lv = "zero_level inDegree remaining"
    have z: "?lv \<noteq> []"
    proof -
      obtain s where s: "s \<in> set steps" "instanceId s \<in> set remaining"
          "set (deps_of s) \<subseteq> set (concat levels)"
        using some_remaining_is_free[OF ac wf ne, of "set (concat levels)"] "1.prems"(5) by blast
      then have "set (deps_of s) - set (concat levels) = {}" by blast
      then have "inDegree (instanceId s) = Some 0"
        using "1.prems"(6) s(1,2) by (simp add: exact_counts_def)
      then have "instanceId s \<in> set ?lv" using s(2) by (simp add: zero_level_def)
      then show ?thesis by auto
    qed
    let ?d = "fst (fold (remove_from_level steps) ?lv (inDegree, remaining))"
    have lv_sub: "set ?lv \<subseteq> set remaining" by (auto simp: zero_level_def)
    have lv_dist: "distinct ?lv" using "1.prems"(3) by (simp add: zero_level_def)
    have lv_R: "set ?lv \<inter> set (concat levels) = {}" using lv_sub "1.prems"(4) by blast
    have c: "exact_counts steps ?d (filter (\<lambda>x. x \<notin> set ?lv) remaining)
               (set (concat levels) \<union> set ?lv)"
      using d "1.prems"(6) lv_dist lv_R by (rule exact_counts_fold)
    have "set (concat (analyze_loop steps ?d
              (snd (fold (remove_from_level steps) ?lv (inDegree, remaining))) (levels @ [?lv])))
            = instanceId ` set steps"
    proof (rule "1.IH")
      show "0 < length remaining" using ne by simp
      show "length ?lv \<noteq> 0" using z by simp
      show "\<not> has_cycle steps" by (rule ac)
      show "well_formed steps" by (rule wf)
      show "distinct (snd (fold (remove_from_level steps) ?lv (inDegree, remaining)))"
        using "1.prems"(3) by (simp add: snd_fold_remove)
      show "set (snd (fold (remove_from_level steps) ?lv (inDegree, remaining)))
              \<inter> set (concat (levels @ [?lv])) = {}"
        using "1.prems"(4) by (auto simp: snd_fold_remove)
      show "set (snd (fold (remove_from_level steps) ?lv (inDegree, remaining)))
              \<union> set (concat (levels @ [?lv])) = instanceId ` set steps"
        using "1.prems"(5) lv_sub by (auto simp: snd_fold_remove)
      show "exact_counts steps ?d (snd (fold (remove_from_level steps) ?lv (inDegree, remaining)))
              (set (concat (levels @ [?lv])))"
        using c by (simp add: snd_fold_remove)
    qed
    then show ?thesis using ne z by (simp add: analyze_loop_level snd_fold_remove)
  qed
qed

lemma levels_place_every_step:
  assumes ac: "\<not> has_cycle steps" and wf: "well_formed steps"
    and dd: "\<forall>s \<in> set steps. distinct (deps_of s)"
  shows "set (concat (levels (analyzeParallelism steps))) = instanceId ` set steps"
proof -
  have d: "distinct (map instanceId steps)" using wf by (simp add: well_formed_def)
  have "set (concat (analyze_loop steps (initial_inDegree steps) (map instanceId steps) []))
          = instanceId ` set steps"
    using ac wf
  proof (rule complete_levels_loop)
    show "distinct (map instanceId steps)" by (rule d)
    show "set (map instanceId steps) \<inter> set (concat []) = {}" by simp
    show "set (map instanceId steps) \<union> set (concat []) = instanceId ` set steps" by simp
    show "exact_counts steps (initial_inDegree steps) (map instanceId steps) (set (concat []))"
      using exact_counts_initial[OF d dd] by simp
  qed
  then show ?thesis using d by (simp add: levels_analyze new_Set_distinct)
qed

subsection \<open>Two sources and one consumer\<close>

lemma initial_mixed: "initial_inDegree steps_mixed = [''N'' \<mapsto> 0, ''A'' \<mapsto> 0, ''C'' \<mapsto> 2]"
  by (simp add: initial_inDegree_def steps_mixed_def steps_eval)

lemma analyze_mixed:
  "analyzeParallelism steps_mixed
     = \<lparr>maxParallelism = Finite 2, levels = [[''N'', ''A''], [''C'']], independentPaths = 2\<rparr>"
proof -
  have ids: "new_Set (map instanceId steps_mixed) = [''N'', ''A'', ''C'']"
    by (simp add: new_Set_def set_add_def steps_mixed_def steps_eval)
  have z1: "zero_level (initial_inDegree steps_mixed) [''N'', ''A'', ''C''] = [''N'', ''A'']"
    by (simp add: initial_mixed zero_level_def)
  have d1: "fst (fold (remove_from_level steps_mixed) [''N'', ''A'']
                  (initial_inDegree steps_mixed, [''N'', ''A'', ''C'']))
              = [''N'' \<mapsto> 0, ''A'' \<mapsto> 0, ''C'' \<mapsto> 0]"
    unfolding initial_mixed
    by (simp add: remove_from_level_pair decrease_dependents_def decremented_def
        steps_mixed_def steps_eval)
  have z2: "zero_level [''N'' \<mapsto> 0, ''A'' \<mapsto> 0, ''C'' \<mapsto> 0] [''C''] = [''C'']"
    by (simp add: zero_level_def)
  have "analyze_loop steps_mixed (initial_inDegree steps_mixed) [''N'', ''A'', ''C''] []
          = analyze_loop steps_mixed [''N'' \<mapsto> 0, ''A'' \<mapsto> 0, ''C'' \<mapsto> 0] [''C''] [[''N'', ''A'']]"
    by (subst analyze_loop_level) (simp_all only: z1 d1, simp_all)
  also have "\<dots> = [[''N'', ''A''], [''C'']]"
    by (subst analyze_loop_level) (simp_all add: z2 analyze_loop_empty)
  finally show ?thesis using ids by (simp add: analyzeParallelism_def Let_def)
qed

subsection \<open>Claims about analyzeParallelism\<close>










end
